theory Spec2Isabelle
  imports Main "HOL-Library.AList" "HOL-Library.Char_ord" "HOL-Library.List_Lexorder"
    "HOL-Library.Multiset"
begin

section \<open>Data model\<close>

text \<open>
  The script \<^verbatim>\<open>generate_translations.py\<close> works on JSON documents read by
  \<^verbatim>\<open>json.load\<close>: string-keyed dicts nested to any depth, with string leaves.
  A Python dict keeps its keys in insertion order and holds each key once, so a dict is
  an association list; \<open>wf_dict\<close> below is the invariant that every key occurs once.
  A Python \<open>str\<close> is a \<open>string\<close>; one \<open>char\<close> stands for one code point.
  \<open>catalog\<close> is a value of such a document: a string or a dict. The values of the
  exceptions that the modelled lines can raise are in \<open>py_error\<close>.
\<close>

datatype py_error =
    AttributeError | TypeError | IndexError | KeyError
  | GitError | JSONDecodeError | ProviderError

datatype catalog = Leaf string | Node "(string \<times> catalog) list"

type_synonym pydict = "(string \<times> catalog) list"

type_synonym flat = "(string \<times> string) list"

text \<open>The default value of the parameter \<^verbatim>\<open>sep\<close>; no caller passes another one.\<close>

definition sep :: char where
  "sep = CHR ''|''"

text \<open>\<^verbatim>\<open>d[k] = v\<close>: an existing key keeps its position, a new key goes last.\<close>

definition dict_set :: "('k \<times> 'v) list \<Rightarrow> 'k \<Rightarrow> 'v \<Rightarrow> ('k \<times> 'v) list" where
  "dict_set d k v = AList.update k v d"

text \<open>\<^verbatim>\<open>d.update(other)\<close>: every item of \<open>other\<close> is stored in \<open>d\<close>, in order.\<close>

definition dict_update :: "('k \<times> 'v) list \<Rightarrow> ('k \<times> 'v) list \<Rightarrow> ('k \<times> 'v) list" where
  "dict_update d other = foldl (\<lambda>acc (k, v). dict_set acc k v) d other"

text \<open>\<^verbatim>\<open>dict(items)\<close>: the items are stored one by one into an empty dict.\<close>

definition dict_of :: "('k \<times> 'v) list \<Rightarrow> ('k \<times> 'v) list" where
  "dict_of items = dict_update [] items"

text \<open>The dict invariant, at every level of a catalog.\<close>

fun wf_catalog :: "catalog \<Rightarrow> bool" where
  "wf_catalog (Leaf s) = True"
| "wf_catalog (Node d) = (distinct (map fst d) \<and> list_all (\<lambda>kv. wf_catalog (snd kv)) d)"

definition wf_dict :: "pydict \<Rightarrow> bool" where
  "wf_dict d = wf_catalog (Node d)"

text \<open>
  Python's \<^verbatim>\<open>==\<close> on these values: two strings are compared as strings, two dicts are
  equal when they have the same number of keys and every key of the first is a key of
  the second with an equal value, whatever the insertion order; a string never equals a
  dict.
\<close>

fun py_eq :: "catalog \<Rightarrow> catalog \<Rightarrow> bool" where
  "py_eq (Leaf s) (Leaf t) = (s = t)"
| "py_eq (Node xs) (Node ys) =
     (length xs = length ys \<and>
      list_all (\<lambda>kv. case map_of ys (fst kv) of None \<Rightarrow> False | Some w \<Rightarrow> py_eq (snd kv) w) xs)"
| "py_eq (Leaf s) (Node ys) = False"
| "py_eq (Node xs) (Leaf t) = False"

section \<open>Path codec\<close>

text \<open>Line 103: \<^verbatim>\<open>f"{parent_key}{sep}{k}" if parent_key else k\<close>.\<close>

definition new_key :: "string \<Rightarrow> string \<Rightarrow> string" where
  "new_key parent_key k = (if parent_key \<noteq> [] then parent_key @ sep # k else k)"

text \<open>
  \<open>flatten_items d parent_key\<close> is the list \<^verbatim>\<open>items\<close> that the loop of
  \<^verbatim>\<open>flatten_dict\<close> (lines 101-107) has built when it ends; the recursive call
  contributes the items of the dict it returns.
\<close>

function flatten_items :: "pydict \<Rightarrow> string \<Rightarrow> flat" where
  "flatten_items [] parent_key = []"
| "flatten_items ((k, Leaf s) # d) parent_key =
     (new_key parent_key k, s) # flatten_items d parent_key"
| "flatten_items ((k, Node sub) # d) parent_key =
     dict_of (flatten_items sub (new_key parent_key k)) @ flatten_items d parent_key"
  by pat_completeness auto
termination
  by (relation "measure (\<lambda>(d, p). size_list (size_prod (\<lambda>_. 0) size) d)") auto

definition flatten_dict :: "pydict \<Rightarrow> string \<Rightarrow> flat" where
  "flatten_dict d parent_key = dict_of (flatten_items d parent_key)"

text \<open>\<^verbatim>\<open>k.split(sep)\<close> for the one-character separator: never an empty list.\<close>

fun str_split :: "char \<Rightarrow> string \<Rightarrow> string list" where
  "str_split c [] = [[]]"
| "str_split c (x # xs) =
     (if x = c then [] # str_split c xs
      else (case str_split c xs of [] \<Rightarrow> [[x]] | w # ws \<Rightarrow> (x # w) # ws))"

text \<open>
  Lines 93-96 for one flat key: \<open>set_path current keys v\<close> walks
  \<^verbatim>\<open>current = current.setdefault(key, {})\<close> along all keys but the last and stores
  \<open>v\<close> under the last one. When the walk reaches a string, \<^verbatim>\<open>setdefault\<close> raises
  AttributeError and the item assignment raises TypeError.
\<close>

fun set_path :: "catalog \<Rightarrow> string list \<Rightarrow> string \<Rightarrow> py_error + catalog" where
  "set_path current [] v = Inl IndexError"
| "set_path (Node d) [k] v = Inr (Node (dict_set d k (Leaf v)))"
| "set_path (Leaf s) [k] v = Inl TypeError"
| "set_path (Node d) (k # ks) v =
     (case set_path (case map_of d k of None \<Rightarrow> Node [] | Some c \<Rightarrow> c) ks v of
        Inl e \<Rightarrow> Inl e
      | Inr c \<Rightarrow> Inr (Node (dict_set d k c)))"
| "set_path (Leaf s) (k # ks) v = Inl AttributeError"

fun unflatten_loop :: "flat \<Rightarrow> catalog \<Rightarrow> py_error + catalog" where
  "unflatten_loop [] result = Inr result"
| "unflatten_loop ((k, v) # d) result =
     (case set_path result (str_split sep k) v of
        Inl e \<Rightarrow> Inl e
      | Inr result' \<Rightarrow> unflatten_loop d result')"

definition unflatten_dict :: "flat \<Rightarrow> py_error + catalog" where
  "unflatten_dict d = unflatten_loop d (Node [])"

text \<open>
  The shape conditions of the round trip. \<open>sep_free\<close>: no key, at any level, contains
  the separator. \<open>has_empty_dict\<close>: some key, at some level, has the value \<^verbatim>\<open>{}\<close>.
  \<open>top_keys_ok\<close>: the key \<^verbatim>\<open>""\<close> of the top level, if present, has a string value
  (line 103 tests \<^verbatim>\<open>parent_key\<close> for truth, so below a top-level key \<^verbatim>\<open>""\<close>
  the paths start over).
\<close>

fun sep_free :: "catalog \<Rightarrow> bool" where
  "sep_free (Leaf s) = True"
| "sep_free (Node d) = list_all (\<lambda>kv. sep \<notin> set (fst kv) \<and> sep_free (snd kv)) d"

fun has_empty_dict :: "catalog \<Rightarrow> bool" where
  "has_empty_dict (Leaf s) = False"
| "has_empty_dict (Node d) = list_ex (\<lambda>kv. snd kv = Node [] \<or> has_empty_dict (snd kv)) d"

definition top_keys_ok :: "pydict \<Rightarrow> bool" where
  "top_keys_ok d =
     list_all (\<lambda>kv. fst kv = [] \<longrightarrow> (case snd kv of Leaf s \<Rightarrow> True | Node sub \<Rightarrow> False)) d"

text \<open>
  A dict without its empty nested dicts: an entry whose value is \<^verbatim>\<open>{}\<close>, or becomes
  \<^verbatim>\<open>{}\<close> by this removal, is left out.
\<close>

function prune :: "pydict \<Rightarrow> pydict" where
  "prune [] = []"
| "prune ((k, Leaf s) # d) = (k, Leaf s) # prune d"
| "prune ((k, Node sub) # d) =
     (if prune sub = [] then prune d else (k, Node (prune sub)) # prune d)"
  by pat_completeness auto
termination
  by (relation "measure (\<lambda>d. size_list (size_prod (\<lambda>_. 0) size) d)") auto

text \<open>
  For the proofs: the leaves of a dict with their key paths, in traversal order, and the
  loop of \<^verbatim>\<open>unflatten_dict\<close> on keys that are already split.
\<close>

function paths :: "pydict \<Rightarrow> (string list \<times> string) list" where
  "paths [] = []"
| "paths ((k, Leaf s) # d) = ([k], s) # paths d"
| "paths ((k, Node sub) # d) = map (\<lambda>p. (k # fst p, snd p)) (paths sub) @ paths d"
  by pat_completeness auto
termination
  by (relation "measure (\<lambda>d. size_list (size_prod (\<lambda>_. 0) size) d)") auto

fun ins_all :: "(string list \<times> string) list \<Rightarrow> catalog \<Rightarrow> py_error + catalog" where
  "ins_all [] result = Inr result"
| "ins_all ((ks, v) # ps) result =
     (case set_path result ks v of Inl e \<Rightarrow> Inl e | Inr result' \<Rightarrow> ins_all ps result')"

section \<open>Snapshot provider\<close>

text \<open>
  \<^verbatim>\<open>load_en_changes_from_last_commits\<close> (lines 111-127) talks to git. What git
  answers is an input of the model: whether \<^verbatim>\<open>repo.git.fetch("--all")\<close> raises; the
  revisions that touched the file, most recent first, or the exception of
  \<^verbatim>\<open>iter_commits\<close> (of which \<^verbatim>\<open>max_count=2\<close> keeps the first two); and for a
  revision the outcome of lines 124-125, that is the value \<^verbatim>\<open>json.loads\<close> returns for
  the file's content in that revision, or the exception raised while reading or decoding
  it. Opening the repository (line 112) can raise as well.
\<close>

record repo =
  fetch_all :: "py_error option"
  file_commits :: "py_error + nat list"
  previous_version :: "nat \<Rightarrow> py_error + catalog"

definition load_en_changes_from_last_commits :: "py_error + repo \<Rightarrow> py_error + catalog" where
  "load_en_changes_from_last_commits opened =
     (case opened of
        Inl e \<Rightarrow> Inl e
      | Inr r \<Rightarrow>
          (case fetch_all r of
             Some e \<Rightarrow> Inl e
           | None \<Rightarrow>
               (case file_commits r of
                  Inl e \<Rightarrow> Inl e
                | Inr cs \<Rightarrow>
                    (let commits = take 2 cs in
                     if length commits < 2 then Inr (Node [])
                     else (case previous_version r (commits ! 1) of
                             Inl e \<Rightarrow> Inr (Node [])
                           | Inr v \<Rightarrow> Inr v)))))"

section \<open>Change detector\<close>

text \<open>
  The loop of lines 142-146 over the keys of \<^verbatim>\<open>current_flat\<close>, with the two lists
  it appends to. \<^verbatim>\<open>current_flat[key]\<close> cannot raise, since \<open>key\<close> comes from
  \<^verbatim>\<open>current_flat\<close>; in the \<^verbatim>\<open>elif\<close> both lookups succeed, and comparing the lookups
  compares the values.
\<close>

fun detect_loop ::
  "flat \<Rightarrow> flat \<Rightarrow> string list \<Rightarrow> string list \<times> string list \<Rightarrow> string list \<times> string list"
where
  "detect_loop current_flat previous_flat [] acc = acc"
| "detect_loop current_flat previous_flat (key # keys) (added_keys, changed_keys) =
     (if map_of previous_flat key = None
      then detect_loop current_flat previous_flat keys (added_keys @ [key], changed_keys)
      else if map_of current_flat key \<noteq> map_of previous_flat key
      then detect_loop current_flat previous_flat keys (added_keys, changed_keys @ [key])
      else detect_loop current_flat previous_flat keys (added_keys, changed_keys))"

definition detect_changes :: "pydict \<Rightarrow> pydict \<Rightarrow> string set" where
  "detect_changes current_dict previous_dict =
     (let current_flat = flatten_dict current_dict [];
          previous_flat = flatten_dict previous_dict [];
          (added_keys, changed_keys) =
             detect_loop current_flat previous_flat (map fst current_flat) ([], [])
      in set (added_keys @ changed_keys))"

text \<open>Line 161: the keys that start with the prefix, with the prefix cut off.\<close>

definition remove_en_prefix :: "flat \<Rightarrow> string \<Rightarrow> flat" where
  "remove_en_prefix dictionary prefix =
     dict_of (map (\<lambda>kv. (drop (length prefix) (fst kv), snd kv))
                (filter (\<lambda>kv. take (length prefix) (fst kv) = prefix) dictionary))"

section \<open>Translation orchestrator\<close>

text \<open>
  The translation provider is the call of lines 69-83. Its answers are an input of the
  model: \<open>P n text target_language\<close> is the outcome of evaluating
  \<^verbatim>\<open>response.choices[0].message.content\<close> when \<open>n\<close> requests were made before this
  one, either the string or the exception raised on the way. The same text may get
  different answers at different times.
\<close>

type_synonym provider = "nat \<Rightarrow> string \<Rightarrow> string \<Rightarrow> py_error + string"

text \<open>\<^verbatim>\<open>str.strip()\<close>: the white space of Python among the code points below 256.\<close>

definition is_space :: "char \<Rightarrow> bool" where
  "is_space c = ((of_char c :: nat) \<in> {9, 10, 11, 12, 13, 28, 29, 30, 31, 32, 133, 160})"

definition strip :: "string \<Rightarrow> string" where
  "strip s = rev (dropWhile is_space (rev (dropWhile is_space s)))"

definition translate_text :: "provider \<Rightarrow> nat \<Rightarrow> string \<Rightarrow> string \<Rightarrow> string" where
  "translate_text P n text target_language =
     (case P n text target_language of
        Inr content \<Rightarrow> strip content
      | Inl e \<Rightarrow> text)"

text \<open>
  The state of the loop of lines 175-182: the dict \<^verbatim>\<open>translated_flat_dict\<close>, and a
  record of the requests made so far (key, source text, outcome), which the script does
  not keep and the claims about the provider need.
\<close>

record run_state =
  translated_flat_dict :: flat
  calls :: "(string \<times> string \<times> (py_error + string)) list"

text \<open>Line 177: \<^verbatim>\<open>k in target_flat and target_flat[k]\<close>; a string is true when not empty.\<close>

definition has_translation :: "flat \<Rightarrow> string \<Rightarrow> bool" where
  "has_translation target_flat k =
     (case map_of target_flat k of None \<Rightarrow> False | Some t \<Rightarrow> t \<noteq> [])"

fun translate_loop :: "provider \<Rightarrow> string \<Rightarrow> flat \<Rightarrow> flat \<Rightarrow> run_state \<Rightarrow> run_state" where
  "translate_loop P target_language target_flat [] st = st"
| "translate_loop P target_language target_flat ((k, v) # rest) st =
     (if has_translation target_flat k
      then translate_loop P target_language target_flat rest st
      else
        (let n = length (calls st);
             new_translation = translate_text P n v target_language
         in translate_loop P target_language target_flat rest
              \<lparr>translated_flat_dict = dict_set (translated_flat_dict st) k new_translation,
               calls = calls st @ [(k, v, P n v target_language)]\<rparr>))"

text \<open>For the proofs: the items of \<open>to_translate\<close> that the loop does not skip.\<close>

definition pending :: "flat \<Rightarrow> flat \<Rightarrow> flat" where
  "pending target_flat to_translate =
     filter (\<lambda>kv. \<not> has_translation target_flat (fst kv)) to_translate"

text \<open>
  \<^verbatim>\<open>main\<close> from line 171 on. The two dicts that lines 165-169 read are parameters:
  \<open>target_dict\<close>, and \<open>to_translate\<close>, whose keys are the change set restricted to the
  prefix \<^verbatim>\<open>en|\<close>. Line 157 builds it by iterating a Python set, in an order the
  language does not fix, so the properties below are proved for every \<open>to_translate\<close>.
  \<open>run_loop\<close> is the state after line 182 and \<open>merged_flat\<close> is \<^verbatim>\<open>target_flat\<close>
  after line 184.
\<close>

definition run_loop :: "provider \<Rightarrow> string \<Rightarrow> pydict \<Rightarrow> flat \<Rightarrow> run_state" where
  "run_loop P target_language target_dict to_translate =
     translate_loop P target_language (flatten_dict target_dict []) to_translate
       \<lparr>translated_flat_dict = [], calls = []\<rparr>"

definition merged_flat :: "provider \<Rightarrow> string \<Rightarrow> pydict \<Rightarrow> flat \<Rightarrow> flat" where
  "merged_flat P target_language target_dict to_translate =
     dict_update (flatten_dict target_dict [])
       (translated_flat_dict (run_loop P target_language target_dict to_translate))"

section \<open>Serialisation\<close>

text \<open>
  \<^verbatim>\<open>json.dump(obj, f, ensure_ascii=False, indent=2, sort_keys=True)\<close> of line 189, as
  the encoder of the standard library writes a value made of dicts and strings. A
  string is quoted; a character is replaced by its escape when the encoder's table has
  one for its code point, and written as it is otherwise. A non-empty dict is written
  one item per line, the items sorted by key, each level indented by two more spaces,
  with \<^verbatim>\<open>,\<close> after every item but the last and \<^verbatim>\<open>: \<close> after the key. The encoder
  sorts the (key, value) pairs; as the keys of a dict differ, that is the order of the keys.
\<close>

definition hex_digit :: "nat \<Rightarrow> char" where
  "hex_digit n = (if n < 10 then char_of (48 + n) else char_of (87 + n))"

text \<open>
  The table \<^verbatim>\<open>ESCAPE_DCT\<close> of the encoder, by code point: the quote, the backslash
  and the code points below 32 have an escape, no other code point has one.
\<close>

definition escape_dct :: "nat \<Rightarrow> string option" where
  "escape_dct n =
     (if n = 0x22 then Some [CHR 0x5C, CHR 0x22]
      else if n = 0x5C then Some [CHR 0x5C, CHR 0x5C]
      else if n = 0x0A then Some [CHR 0x5C, CHR ''n'']
      else if n = 0x0D then Some [CHR 0x5C, CHR ''r'']
      else if n = 0x09 then Some [CHR 0x5C, CHR ''t'']
      else if n = 0x08 then Some [CHR 0x5C, CHR ''b'']
      else if n = 0x0C then Some [CHR 0x5C, CHR ''f'']
      else if n < 32
      then Some (CHR 0x5C # ''u00'' @ [hex_digit (n div 16), hex_digit (n mod 16)])
      else None)"

definition escape_char :: "char \<Rightarrow> string" where
  "escape_char c = (case escape_dct (of_char c) of None \<Rightarrow> [c] | Some e \<Rightarrow> e)"

definition encode_basestring :: "string \<Rightarrow> string" where
  "encode_basestring s = CHR 0x22 # concat (map escape_char s) @ [CHR 0x22]"

definition newline_indent :: "nat \<Rightarrow> string" where
  "newline_indent level = CHR 0x0A # replicate (2 * level) CHR '' ''"

fun join_items :: "string \<Rightarrow> string list \<Rightarrow> string" where
  "join_items separator [] = []"
| "join_items separator [x] = x"
| "join_items separator (x # y # ys) = x @ separator @ join_items separator (y # ys)"

function iterencode :: "nat \<Rightarrow> catalog \<Rightarrow> string" where
  "iterencode level (Leaf s) = encode_basestring s"
| "iterencode level (Node d) =
     (if d = [] then ''{}''
      else CHR ''{'' # newline_indent (level + 1)
        @ join_items (CHR '','' # newline_indent (level + 1))
            (map (\<lambda>kv. encode_basestring (fst kv) @ '': '' @ iterencode (level + 1) (snd kv))
               (sort_key fst d))
        @ newline_indent level @ ''}'')"
  by pat_completeness auto
termination
  by (relation "measure (\<lambda>(l, c). size c)") (auto simp: less_Suc_eq_le size_list_estimation')


text \<open>
  Lines 185-189: the text written to the target file, or the exception of
  \<^verbatim>\<open>unflatten_dict\<close>, which ends the run before the file is opened for writing.
\<close>

definition main :: "provider \<Rightarrow> string \<Rightarrow> string \<Rightarrow> pydict \<Rightarrow> flat \<Rightarrow> py_error + string" where
  "main P language_code target_language target_dict to_translate =
     (case unflatten_dict (merged_flat P target_language target_dict to_translate) of
        Inl e \<Rightarrow> Inl e
      | Inr updated_target_dict \<Rightarrow> Inr (iterencode 0 (Node [(language_code, updated_target_dict)])))"

section \<open>Dicts as association lists\<close>

lemma dict_set_fresh: "k \<notin> fst ` set d \<Longrightarrow> dict_set d k v = d @ [(k, v)]"
  unfolding dict_set_def by (induction d) auto

lemma dict_set_last: "k \<notin> fst ` set d \<Longrightarrow> dict_set (d @ [(k, v)]) k w = d @ [(k, w)]"
  unfolding dict_set_def by (induction d) auto

lemma map_of_last: "k \<notin> fst ` set d \<Longrightarrow> map_of (d @ [(k, v)]) k = Some v"
  by (induction d) auto

lemma map_of_fresh: "k \<notin> fst ` set d \<Longrightarrow> map_of d k = None"
  by (simp add: map_of_eq_None_iff)

lemma dict_update_distinct:
  "distinct (map fst (acc @ xs)) \<Longrightarrow> dict_update acc xs = acc @ xs"
proof (induction xs arbitrary: acc)
  case Nil
  show ?case by (simp add: dict_update_def)
next
  case (Cons x xs)
  obtain k v where x: "x = (k, v)" by (cases x)
  from Cons.prems x have fresh: "k \<notin> fst ` set acc" by auto
  from Cons.prems x have "distinct (map fst ((acc @ [(k, v)]) @ xs))" by auto
  from Cons.IH [OF this] have "dict_update (acc @ [(k, v)]) xs = acc @ (k, v) # xs" by simp
  then show ?case
    using fresh x by (simp add: dict_update_def dict_set_fresh)
qed

lemma dict_of_distinct: "distinct (map fst xs) \<Longrightarrow> dict_of xs = xs"
  using dict_update_distinct [of "[]" xs] by (simp add: dict_of_def)

section \<open>Round trip of the path codec\<close>

lemma str_split_sep_free: "c \<notin> set k \<Longrightarrow> str_split c k = [k]"
  by (induction k) auto

lemma str_split_not_Nil: "str_split c k \<noteq> []"
  by (induction k) (auto split: list.splits)

lemma str_split_append:
  "str_split c (p @ c # k) = str_split c p @ str_split c k"
  by (induction p) (auto split: list.splits simp: str_split_not_Nil)

lemma ins_all_append:
  "ins_all (xs @ ys) r = (case ins_all xs r of Inl e \<Rightarrow> Inl e | Inr r' \<Rightarrow> ins_all ys r')"
  by (induction xs arbitrary: r) (auto split: sum.splits)

lemma unflatten_loop_ins_all:
  "unflatten_loop d r = ins_all (map (\<lambda>(k, v). (str_split sep k, v)) d) r"
  by (induction d arbitrary: r) (auto split: sum.splits)

lemma paths_nonempty_segments: "(ks, v) \<in> set (paths d) \<Longrightarrow> ks \<noteq> []"
  by (induction d arbitrary: ks v rule: paths.induct) auto

lemma ins_all_under_key:
  "\<lbrakk>\<forall>p \<in> set ps. fst p \<noteq> []; k \<notin> fst ` set acc; ins_all ps c0 = Inr c\<rbrakk>
   \<Longrightarrow> ins_all (map (\<lambda>p. (k # fst p, snd p)) ps) (Node (acc @ [(k, c0)])) = Inr (Node (acc @ [(k, c)]))"
proof (induction ps arbitrary: c0)
  case Nil
  then show ?case by simp
next
  case (Cons p ps)
  obtain ks v where p: "p = (ks, v)" by (cases p)
  with Cons.prems obtain k' ks' where ks: "ks = k' # ks'" by (cases ks) auto
  from Cons.prems p obtain c1 where c1: "set_path c0 ks v = Inr c1" and rest: "ins_all ps c1 = Inr c"
    by (auto split: sum.splits)
  have "set_path (Node (acc @ [(k, c0)])) (k # ks) v = Inr (Node (acc @ [(k, c1)]))"
    using c1 Cons.prems(2) by (simp add: ks map_of_last dict_set_last del: map_of_append)
  moreover have "ins_all (map (\<lambda>p. (k # fst p, snd p)) ps) (Node (acc @ [(k, c1)])) = Inr (Node (acc @ [(k, c)]))"
    using Cons.IH [OF _ Cons.prems(2) rest] Cons.prems(1) by simp
  ultimately show ?case by (simp add: p)
qed


lemma ins_all_new_key:
  assumes "ps \<noteq> []" and "\<forall>p \<in> set ps. fst p \<noteq> []" and "k \<notin> fst ` set acc"
    and "ins_all ps (Node []) = Inr c"
  shows "ins_all (map (\<lambda>p. (k # fst p, snd p)) ps) (Node acc) = Inr (Node (acc @ [(k, c)]))"
proof -
  from assms(1) obtain ks v ps' where ps: "ps = (ks, v) # ps'" by (cases ps) auto
  with assms(2) obtain k' ks' where ks: "ks = k' # ks'" by (cases ks) auto
  from assms(4) ps obtain c1 where c1: "set_path (Node []) ks v = Inr c1"
    and rest: "ins_all ps' c1 = Inr c"
    by (auto split: sum.splits)
  have first: "set_path (Node acc) (k # ks) v = Inr (Node (acc @ [(k, c1)]))"
    using c1 assms(3) by (simp add: ks map_of_fresh dict_set_fresh)
  have "\<forall>p \<in> set ps'. fst p \<noteq> []" using assms(2) ps by simp
  from ins_all_under_key [OF this assms(3) rest] first show ?thesis
    by (simp add: ps)
qed

lemma wf_dict_Nil: "wf_dict []"
  by (simp add: wf_dict_def)

lemma wf_dict_Cons:
  "wf_dict ((k, v) # d) = (k \<notin> fst ` set d \<and> wf_catalog v \<and> wf_dict d)"
  by (auto simp: wf_dict_def)

lemma wf_catalog_Node: "wf_catalog (Node d) = wf_dict d"
  by (simp add: wf_dict_def)

lemma paths_not_Nil:
  "d \<noteq> [] \<Longrightarrow> \<not> has_empty_dict (Node d) \<Longrightarrow> paths d \<noteq> []"
  by (induction d rule: paths.induct) auto

lemma ins_all_paths:
  "\<lbrakk>wf_dict d; \<not> has_empty_dict (Node d); fst ` set acc \<inter> fst ` set d = {}\<rbrakk>
   \<Longrightarrow> ins_all (paths d) (Node acc) = Inr (Node (acc @ d))"
proof (induction d arbitrary: acc rule: paths.induct)
  case 1
  show ?case by simp
next
  case (2 k s d)
  from "2.prems" have fresh: "k \<notin> fst ` set acc" by auto
  have "ins_all (paths d) (Node (acc @ [(k, Leaf s)])) = Inr (Node ((acc @ [(k, Leaf s)]) @ d))"
    using "2.prems" by (intro "2.IH") (auto simp: wf_dict_Cons)
  then show ?case
    using fresh by (simp add: dict_set_fresh)
next
  case (3 k sub d)
  from "3.prems" have fresh: "k \<notin> fst ` set acc" by auto
  from "3.prems" have sub: "sub \<noteq> []" "\<not> has_empty_dict (Node sub)" "wf_dict sub"
    by (auto simp: wf_dict_Cons wf_catalog_Node simp del: wf_catalog.simps)
  have "ins_all (paths sub) (Node []) = Inr (Node ([] @ sub))"
    using sub by (intro "3.IH"(1)) auto
  then have inner: "ins_all (paths sub) (Node []) = Inr (Node sub)" by simp
  have segs: "\<forall>p \<in> set (paths sub). fst p \<noteq> []"
    using paths_nonempty_segments by fastforce
  have step: "ins_all (map (\<lambda>p. (k # fst p, snd p)) (paths sub)) (Node acc)
      = Inr (Node (acc @ [(k, Node sub)]))"
    by (rule ins_all_new_key [OF paths_not_Nil [OF sub(1) sub(2)] segs fresh inner])
  have "ins_all (paths d) (Node (acc @ [(k, Node sub)])) = Inr (Node ((acc @ [(k, Node sub)]) @ d))"
    using "3.prems" by (intro "3.IH"(2)) (auto simp: wf_dict_Cons)
  then show ?case
    using step by (simp add: ins_all_append)
qed


lemma paths_Leaf_key: "k \<notin> fst ` set d \<Longrightarrow> [k] \<notin> fst ` set (paths d)"
  by (induction d rule: paths.induct) (auto simp: image_iff)

lemma paths_hd_key: "(ks, v) \<in> set (paths d) \<Longrightarrow> \<exists>k ks'. ks = k # ks' \<and> k \<in> fst ` set d"
  by (induction d arbitrary: ks v rule: paths.induct) (auto simp: image_iff, blast+)

lemma distinct_Cons_keys:
  "distinct (map fst ps) \<Longrightarrow> distinct (map fst (map (\<lambda>p. (k # fst p, snd p)) ps))"
proof -
  assume d: "distinct (map fst ps)"
  have "map fst (map (\<lambda>p. (k # fst p, snd p)) ps) = map ((#) k) (map fst ps)"
    by (induction ps) auto
  moreover have "distinct (map ((#) k) (map fst ps))"
    using d by (subst distinct_map) simp
  ultimately show ?thesis by metis
qed

lemma distinct_paths: "wf_dict d \<Longrightarrow> distinct (map fst (paths d))"
proof (induction d rule: paths.induct)
  case 1
  show ?case by simp
next
  case (2 k s d)
  then show ?case using paths_Leaf_key [of k d] by (auto simp: wf_dict_Cons)
next
  case (3 k sub d)
  from 3 have k: "k \<notin> fst ` set d" and d1: "distinct (map fst (paths sub))"
    and d2: "distinct (map fst (paths d))"
    by (auto simp: wf_dict_Cons wf_catalog_Node simp del: wf_catalog.simps)
  have disj: "set (map fst (map (\<lambda>p. (k # fst p, snd p)) (paths sub))) \<inter> set (map fst (paths d)) = {}"
  proof (rule ccontr)
    assume "\<not> ?thesis"
    then obtain ks where a: "ks \<in> set (map fst (map (\<lambda>p. (k # fst p, snd p)) (paths sub)))"
      and b: "ks \<in> set (map fst (paths d))" by blast
    from a obtain ks0 where "ks = k # ks0" by auto
    moreover from b obtain v where "(ks, v) \<in> set (paths d)" by auto
    ultimately show False using paths_hd_key [of ks v d] k by auto
  qed
  have "distinct (map fst (map (\<lambda>p. (k # fst p, snd p)) (paths sub)) @ map fst (paths d))"
    using distinct_Cons_keys [OF d1, of k] d2 disj by (simp only: distinct_append simp_thms)
  then show ?case by simp
qed


lemma distinct_keys_pullback:
  assumes "map (\<lambda>kv. (f (fst kv), snd kv)) F = map (\<lambda>p. (pre @ fst p, snd p)) P"
    and "distinct (map fst P)"
  shows "distinct (map fst F)"
proof -
  have "map fst (map (\<lambda>kv. (f (fst kv), snd kv)) F) = map fst (map (\<lambda>p. (pre @ fst p, snd p)) P)"
    using assms(1) by (rule arg_cong)
  then have eq: "map f (map fst F) = map ((@) pre) (map fst P)"
    by (simp add: comp_def)
  have "distinct (map ((@) pre) (map fst P))"
    using assms(2) by (subst distinct_map) (simp add: inj_on_def)
  with eq have "distinct (map f (map fst F))" by simp
  then show ?thesis by (simp only: distinct_map)
qed


lemma sep_free_Cons:
  "sep_free (Node ((k, v) # d)) = (sep \<notin> set k \<and> sep_free v \<and> sep_free (Node d))"
  by simp

lemma flatten_items_paths:
  "\<lbrakk>parent \<noteq> []; wf_dict d; sep_free (Node d)\<rbrakk>
   \<Longrightarrow> map (\<lambda>kv. (str_split sep (fst kv), snd kv)) (flatten_items d parent)
     = map (\<lambda>p. (str_split sep parent @ fst p, snd p)) (paths d)"
proof (induction d parent rule: flatten_items.induct)
  case (1 parent)
  show ?case by simp
next
  case (2 k s d parent)
  have "str_split sep (new_key parent k) = str_split sep parent @ [k]"
    using "2.prems" by (simp add: new_key_def str_split_append str_split_sep_free)
  moreover have "map (\<lambda>kv. (str_split sep (fst kv), snd kv)) (flatten_items d parent)
     = map (\<lambda>p. (str_split sep parent @ fst p, snd p)) (paths d)"
    using "2.prems" by (intro "2.IH") (auto simp: wf_dict_Cons)
  ultimately show ?case by simp
next
  case (3 k sub d parent)
  let ?q = "new_key parent k"
  have q: "?q \<noteq> []" using "3.prems"(1) by (simp add: new_key_def)
  have split_q: "str_split sep ?q = str_split sep parent @ [k]"
    using "3.prems" by (simp add: new_key_def str_split_append str_split_sep_free)
  from "3.prems" have sub: "wf_dict sub" "sep_free (Node sub)"
    by (auto simp: wf_dict_Cons wf_catalog_Node simp del: wf_catalog.simps)
  have inner: "map (\<lambda>kv. (str_split sep (fst kv), snd kv)) (flatten_items sub ?q)
     = map (\<lambda>p. (str_split sep ?q @ fst p, snd p)) (paths sub)"
    using q sub by (rule "3.IH"(1))
  have "distinct (map fst (flatten_items sub ?q))"
    using inner distinct_paths [OF sub(1)] by (rule distinct_keys_pullback)
  then have dict: "dict_of (flatten_items sub ?q) = flatten_items sub ?q"
    by (rule dict_of_distinct)
  have rest: "map (\<lambda>kv. (str_split sep (fst kv), snd kv)) (flatten_items d parent)
     = map (\<lambda>p. (str_split sep parent @ fst p, snd p)) (paths d)"
    using "3.prems" by (intro "3.IH"(2)) (auto simp: wf_dict_Cons)
  show ?case
    by (simp add: dict inner rest split_q comp_def)
qed

lemma flatten_items_keys_distinct:
  "\<lbrakk>parent \<noteq> []; wf_dict d; sep_free (Node d)\<rbrakk> \<Longrightarrow> distinct (map fst (flatten_items d parent))"
  using distinct_keys_pullback [OF flatten_items_paths distinct_paths] by blast

lemma flatten_items_top:
  "\<lbrakk>wf_dict d; sep_free (Node d); top_keys_ok d\<rbrakk>
   \<Longrightarrow> map (\<lambda>kv. (str_split sep (fst kv), snd kv)) (flatten_items d []) = paths d"
proof (induction d)
  case Nil
  show ?case by simp
next
  case (Cons x d)
  obtain k v where x: "x = (k, v)" by (cases x)
  have IH: "map (\<lambda>kv. (str_split sep (fst kv), snd kv)) (flatten_items d []) = paths d"
    using Cons.prems x by (intro Cons.IH) (auto simp: wf_dict_Cons top_keys_ok_def)
  show ?case
  proof (cases v)
    case (Leaf s)
    have "str_split sep k = [k]" using Cons.prems x by (simp add: str_split_sep_free)
    then show ?thesis using IH x Leaf by (simp add: new_key_def)
  next
    case (Node sub)
    from Cons.prems x Node have k: "k \<noteq> []" by (auto simp: top_keys_ok_def)
    from Cons.prems x Node have sub: "wf_dict sub" "sep_free (Node sub)"
      by (auto simp: wf_dict_Cons wf_catalog_Node simp del: wf_catalog.simps)
    have split_k: "str_split sep k = [k]" using Cons.prems x by (simp add: str_split_sep_free)
    have inner: "map (\<lambda>kv. (str_split sep (fst kv), snd kv)) (flatten_items sub k)
       = map (\<lambda>p. (str_split sep k @ fst p, snd p)) (paths sub)"
      using k sub by (rule flatten_items_paths)
    have dict: "dict_of (flatten_items sub k) = flatten_items sub k"
      using flatten_items_keys_distinct [OF k sub] by (rule dict_of_distinct)
    show ?thesis
      using IH by (simp add: x Node new_key_def dict inner split_k)
  qed
qed

lemma py_eq_refl: "wf_catalog c \<Longrightarrow> py_eq c c"
proof (induction c)
  case (Leaf s)
  show ?case by simp
next
  case (Node d)
  have "case map_of d (fst kv) of None \<Rightarrow> False | Some w \<Rightarrow> py_eq (snd kv) w" if "kv \<in> set d" for kv
  proof -
    from Node.prems have "distinct (map fst d)" by simp
    with that have "map_of d (fst kv) = Some (snd kv)" by simp
    moreover have "py_eq (snd kv) (snd kv)"
      using Node.IH [of kv "snd kv"] Node.prems that
      by (cases kv) (auto simp: list_all_iff)
    ultimately show ?thesis by simp
  qed
  then show ?case by (simp add: list_all_iff)
qed

lemma unflatten_flatten_exact:
  assumes "wf_dict C" and "sep_free (Node C)" and "\<not> has_empty_dict (Node C)"
    and "top_keys_ok C"
  shows "unflatten_dict (flatten_dict C []) = Inr (Node C)"
proof -
  have split: "map (\<lambda>kv. (str_split sep (fst kv), snd kv)) (flatten_items C []) = paths C"
    using assms(1,2,4) by (rule flatten_items_top)
  have "distinct (map fst (flatten_items C []))"
    using distinct_keys_pullback [of "str_split sep" "flatten_items C []" "[]" "paths C"]
      split distinct_paths [OF assms(1)] by simp
  then have "flatten_dict C [] = flatten_items C []"
    by (simp add: flatten_dict_def dict_of_distinct)
  then have "unflatten_dict (flatten_dict C []) = ins_all (paths C) (Node [])"
    using split by (simp add: unflatten_dict_def unflatten_loop_ins_all case_prod_unfold)
  also have "\<dots> = Inr (Node ([] @ C))"
    using assms(1,3) by (intro ins_all_paths) auto
  finally show ?thesis by simp
qed

text \<open>
  C3 (amended). For every catalog \<open>C\<close> (a dict, every key held once at every level) in
  which no key contains the separator, no key has the value \<^verbatim>\<open>{}\<close>, and the top-level
  key \<^verbatim>\<open>""\<close>, if present, has a string value: \<^verbatim>\<open>unflatten_dict(flatten_dict(C))\<close>
  returns, and what it returns is \<open>C\<close>, with the keys in the same order, so it equals
  \<open>C\<close> under Python's \<^verbatim>\<open>==\<close>.
\<close>

theorem roundtrip_lossless:
  assumes "wf_dict C" and "sep_free (Node C)" and "\<not> has_empty_dict (Node C)"
    and "top_keys_ok C"
  shows "\<exists>R. unflatten_dict (flatten_dict C []) = Inr R \<and> R = Node C \<and> py_eq R (Node C)"
proof -
  have "unflatten_dict (flatten_dict C []) = Inr (Node C)"
    using assms by (rule unflatten_flatten_exact)
  moreover have "py_eq (Node C) (Node C)"
    using assms(1) by (intro py_eq_refl) (simp add: wf_dict_def)
  ultimately show ?thesis by simp
qed

theorem roundtrip_lossless_witness:
  "wf_dict [(''en'', Node [(''a'', Leaf ''Hello''), (''b'', Node [(''c'', Leaf ''x'')])]), ([], Leaf ''t'')]
   \<and> sep_free (Node [(''en'', Node [(''a'', Leaf ''Hello''), (''b'', Node [(''c'', Leaf ''x'')])]), ([], Leaf ''t'')])
   \<and> \<not> has_empty_dict (Node [(''en'', Node [(''a'', Leaf ''Hello''), (''b'', Node [(''c'', Leaf ''x'')])]), ([], Leaf ''t'')])
   \<and> top_keys_ok [(''en'', Node [(''a'', Leaf ''Hello''), (''b'', Node [(''c'', Leaf ''x'')])]), ([], Leaf ''t'')]
   \<and> flatten_dict [(''en'', Node [(''a'', Leaf ''Hello''), (''b'', Node [(''c'', Leaf ''x'')])]), ([], Leaf ''t'')] []
       = [(''en|a'', ''Hello''), (''en|b|c'', ''x''), ([], ''t'')]
   \<and> unflatten_dict (flatten_dict
         [(''en'', Node [(''a'', Leaf ''Hello''), (''b'', Node [(''c'', Leaf ''x'')])]), ([], Leaf ''t'')] [])
       = Inr (Node [(''en'', Node [(''a'', Leaf ''Hello''), (''b'', Node [(''c'', Leaf ''x'')])]), ([], Leaf ''t'')])"
proof -
  let ?C = "[(''en'', Node [(''a'', Leaf ''Hello''), (''b'', Node [(''c'', Leaf ''x'')])]), ([], Leaf ''t'')]"
  have h1: "wf_dict ?C" by (simp add: wf_dict_def)
  have h2: "sep_free (Node ?C)" by (simp add: sep_def)
  have h3: "\<not> has_empty_dict (Node ?C)" by simp
  have h4: "top_keys_ok ?C" by (simp add: top_keys_ok_def)
  have fl: "flatten_dict ?C [] = [(''en|a'', ''Hello''), (''en|b|c'', ''x''), ([], ''t'')]"
    by (simp add: flatten_dict_def dict_of_def dict_update_def dict_set_def new_key_def sep_def)
  from roundtrip_lossless [OF h1 h2 h3 h4] have "unflatten_dict (flatten_dict ?C []) = Inr (Node ?C)"
    by blast
  with h1 h2 h3 h4 fl show ?thesis by blast
qed

text \<open>
  C3 as the spec states it asks only that no key contains the separator. Two catalogs
  with that property do not come back: one with an empty nested dict, which the round
  trip drops, and one with the top-level key \<^verbatim>\<open>""\<close> over a nested dict, whose leaves
  the round trip moves to the top level.
\<close>

theorem roundtrip_counterexample:
  "wf_dict [(''a'', Node [])] \<and> sep_free (Node [(''a'', Node [])])
   \<and> unflatten_dict (flatten_dict [(''a'', Node [])] []) = Inr (Node [])
   \<and> \<not> py_eq (Node []) (Node [(''a'', Node [])])
   \<and> wf_dict [([], Node [(''a'', Leaf ''x'')])] \<and> sep_free (Node [([], Node [(''a'', Leaf ''x'')])])
   \<and> unflatten_dict (flatten_dict [([], Node [(''a'', Leaf ''x'')])] []) = Inr (Node [(''a'', Leaf ''x'')])
   \<and> \<not> py_eq (Node [(''a'', Leaf ''x'')]) (Node [([], Node [(''a'', Leaf ''x'')])])"
  by (simp add: wf_dict_def sep_def flatten_dict_def dict_of_def dict_update_def dict_set_def
      new_key_def unflatten_dict_def)

section \<open>The translation loop and the merge\<close>

lemma map_of_dict_update: "map_of (dict_update d other) = map_of d ++ map_of (rev other)"
proof (induction other arbitrary: d)
  case Nil
  show ?case by (simp add: dict_update_def)
next
  case (Cons x other)
  obtain k v where x: "x = (k, v)" by (cases x)
  have "dict_update d (x # other) = dict_update (dict_set d k v) other"
    by (simp add: dict_update_def x)
  then show ?case
    by (simp add: Cons.IH x dict_set_def update_conv' map_add_def fun_eq_iff split: option.splits)
qed

lemma keys_dict_update: "fst ` set (dict_update d other) = fst ` set d \<union> fst ` set other"
proof (induction other arbitrary: d)
  case Nil
  show ?case by (simp add: dict_update_def)
next
  case (Cons x other)
  obtain k v where x: "x = (k, v)" by (cases x)
  have "dict_update d (x # other) = dict_update (dict_set d k v) other"
    by (simp add: dict_update_def x)
  then show ?case
    by (simp add: Cons.IH x dict_set_def dom_update)
qed

lemma map_of_dict_update_other:
  "k \<notin> fst ` set other \<Longrightarrow> map_of (dict_update d other) k = map_of d k"
  by (simp add: map_of_dict_update map_add_def map_of_eq_None_iff [THEN iffD2])

lemma map_of_dict_update_distinct:
  assumes "distinct (map fst other)" and "(k, v) \<in> set other"
  shows "map_of (dict_update d other) k = Some v"
proof -
  have "distinct (map fst (rev other))" using assms(1) by (simp add: rev_map [symmetric])
  moreover have "(k, v) \<in> set (rev other)" using assms(2) by simp
  ultimately have "map_of (rev other) k = Some v" by (rule map_of_is_SomeI)
  then show ?thesis by (simp add: map_of_dict_update)
qed

lemma translate_loop_calls:
  "calls (translate_loop P lang tf xs st) =
     calls st @ map (\<lambda>ikv. (fst (snd ikv), snd (snd ikv), P (fst ikv) (snd (snd ikv)) lang))
                  (enumerate (length (calls st)) (pending tf xs))"
proof (induction xs arbitrary: st)
  case Nil
  show ?case by (simp add: pending_def)
next
  case (Cons x xs)
  obtain k v where x: "x = (k, v)" by (cases x)
  show ?case
    by (simp add: x Cons.IH pending_def Let_def)
qed

lemma translate_loop_translated:
  "translated_flat_dict (translate_loop P lang tf xs st) =
     dict_update (translated_flat_dict st)
       (map (\<lambda>ikv. (fst (snd ikv), translate_text P (fst ikv) (snd (snd ikv)) lang))
          (enumerate (length (calls st)) (pending tf xs)))"
proof (induction xs arbitrary: st)
  case Nil
  show ?case by (simp add: pending_def dict_update_def)
next
  case (Cons x xs)
  obtain k v where x: "x = (k, v)" by (cases x)
  show ?case
    by (simp add: x Cons.IH pending_def Let_def dict_update_def)
qed

lemma run_loop_calls:
  "calls (run_loop P lang target_dict to_translate) =
     map (\<lambda>ikv. (fst (snd ikv), snd (snd ikv), P (fst ikv) (snd (snd ikv)) lang))
       (enumerate 0 (pending (flatten_dict target_dict []) to_translate))"
  by (simp add: run_loop_def translate_loop_calls)

lemma run_loop_translated:
  "translated_flat_dict (run_loop P lang target_dict to_translate) =
     dict_of (map (\<lambda>ikv. (fst (snd ikv), translate_text P (fst ikv) (snd (snd ikv)) lang))
       (enumerate 0 (pending (flatten_dict target_dict []) to_translate)))"
  by (simp add: run_loop_def translate_loop_translated dict_of_def)

lemma fst_enumerate_image:
  "(\<lambda>ikv. f (fst (snd ikv))) ` set (enumerate n xs) = (\<lambda>kv. f (fst kv)) ` set xs"
  by (induction xs arbitrary: n) auto

lemma run_loop_calls_keys:
  "fst ` set (calls (run_loop P lang target_dict to_translate)) =
     fst ` set (pending (flatten_dict target_dict []) to_translate)"
  using fst_enumerate_image [of "\<lambda>k. k"]
  by (simp add: run_loop_calls image_image)

lemma run_loop_translated_keys:
  "fst ` set (translated_flat_dict (run_loop P lang target_dict to_translate)) =
     fst ` set (pending (flatten_dict target_dict []) to_translate)"
  using fst_enumerate_image [of "\<lambda>k. k"]
  by (simp add: run_loop_translated dict_of_def keys_dict_update image_image)

lemma pending_keys:
  "(k \<in> fst ` set (pending tf to_translate)) = (k \<in> fst ` set to_translate \<and> \<not> has_translation tf k)"
  by (auto simp: pending_def)

lemma pending_distinct: "distinct (map fst xs) \<Longrightarrow> distinct (map fst (pending tf xs))"
  by (simp add: pending_def distinct_map_filter)

lemma enumerate_keys: "map (\<lambda>ikv. fst (snd ikv)) (enumerate n xs) = map fst xs"
  by (induction xs arbitrary: n) auto


lemma request_nth:
  "n < length pd \<Longrightarrow> pd ! n = (k, v) \<Longrightarrow>
   map (\<lambda>ikv. (fst (snd ikv), f (fst ikv) (snd (snd ikv)))) (enumerate 0 pd) ! n = (k, f n v)"
  by (simp add: nth_enumerate_eq)

lemma request_keys:
  "map fst (map (\<lambda>ikv. (fst (snd ikv), f (fst ikv) (snd (snd ikv)))) (enumerate n pd)) = map fst pd"
  by (induction pd arbitrary: n) simp_all

lemma request_mem:
  assumes "n < length pd" and "pd ! n = (k, v)"
  shows "(k, f n v) \<in> set (map (\<lambda>ikv. (fst (snd ikv), f (fst ikv) (snd (snd ikv)))) (enumerate 0 pd))"
proof -
  let ?tr = "map (\<lambda>ikv. (fst (snd ikv), f (fst ikv) (snd (snd ikv)))) (enumerate 0 pd)"
  have "n < length ?tr" using assms(1) by simp
  then have "?tr ! n \<in> set ?tr" by (rule nth_mem)
  then show ?thesis by (simp only: request_nth [OF assms])
qed


lemma run_loop_request_call:
  assumes "n < length (pending (flatten_dict target_dict []) to_translate)"
    and "pending (flatten_dict target_dict []) to_translate ! n = (k, v)"
  shows "calls (run_loop P lang target_dict to_translate) ! n = (k, v, P n v lang)"
  using request_nth [OF assms, of "\<lambda>i t. (t, P i t lang)"]
  by (simp only: run_loop_calls)

lemma run_loop_request_value:
  assumes "distinct (map fst to_translate)"
    and "n < length (pending (flatten_dict target_dict []) to_translate)"
    and "pending (flatten_dict target_dict []) to_translate ! n = (k, v)"
  shows "map_of (translated_flat_dict (run_loop P lang target_dict to_translate)) k
          = Some (translate_text P n v lang)"
    and "map_of (merged_flat P lang target_dict to_translate) k = Some (translate_text P n v lang)"
proof -
  let ?pd = "pending (flatten_dict target_dict []) to_translate"
  let ?tr = "map (\<lambda>ikv. (fst (snd ikv), translate_text P (fst ikv) (snd (snd ikv)) lang)) (enumerate 0 ?pd)"
  have d: "distinct (map fst ?tr)"
    using pending_distinct [OF assms(1), of "flatten_dict target_dict []"]
    by (simp only: request_keys [of "\<lambda>i t. translate_text P i t lang"])
  have m: "(k, translate_text P n v lang) \<in> set ?tr"
    using request_mem [OF assms(2,3), of "\<lambda>i t. translate_text P i t lang"] .
  have tr: "translated_flat_dict (run_loop P lang target_dict to_translate) = ?tr"
    using dict_of_distinct [OF d] by (simp only: run_loop_translated)
  show "map_of (translated_flat_dict (run_loop P lang target_dict to_translate)) k
          = Some (translate_text P n v lang)"
    unfolding tr using d m by (rule map_of_is_SomeI)
  show "map_of (merged_flat P lang target_dict to_translate) k = Some (translate_text P n v lang)"
    unfolding merged_flat_def tr using d m by (rule map_of_dict_update_distinct)
qed


lemma run_loop_calls_length:
  "length (calls (run_loop P lang target_dict to_translate))
     = length (pending (flatten_dict target_dict []) to_translate)"
  by (simp only: run_loop_calls length_map length_enumerate)

text \<open>
  A run used by the examples below: the target has a translation for \<open>a\<close> and an empty
  one for \<open>e\<close>; the provider raises on the text \<open>Bye\<close> and answers every other text
  with white space around the answer.
\<close>

lemma ex_flat: "flatten_dict [(''a'', Leaf ''Hallo''), (''e'', Leaf [])] [] = [(''a'', ''Hallo''), (''e'', [])]"
  by (simp add: flatten_dict_def dict_of_def dict_update_def dict_set_def new_key_def)

lemma ex_run:
  "run_loop (\<lambda>n t l. if t = ''Bye'' then Inl ProviderError else Inr ('' <'' @ t @ ''> '')) ''German''
     [(''a'', Leaf ''Hallo''), (''e'', Leaf [])]
     [(''a'', ''Hello''), (''b'', ''Bye''), (''c'', ''See''), (''e'', ''E'')]
   = \<lparr>translated_flat_dict = [(''b'', ''Bye''), (''c'', ''<See>''), (''e'', ''<E>'')],
      calls = [(''b'', ''Bye'', Inl ProviderError), (''c'', ''See'', Inr '' <See> ''),
               (''e'', ''E'', Inr '' <E> '')]\<rparr>"
  by (simp add: run_loop_def ex_flat has_translation_def translate_text_def strip_def is_space_def
      dict_set_def Let_def)

lemma ex_merged:
  "merged_flat (\<lambda>n t l. if t = ''Bye'' then Inl ProviderError else Inr ('' <'' @ t @ ''> '')) ''German''
     [(''a'', Leaf ''Hallo''), (''e'', Leaf [])]
     [(''a'', ''Hello''), (''b'', ''Bye''), (''c'', ''See''), (''e'', ''E'')]
   = [(''a'', ''Hallo''), (''e'', ''<E>''), (''b'', ''Bye''), (''c'', ''<See>'')]"
  by (simp add: merged_flat_def ex_run ex_flat dict_update_def dict_set_def)

text \<open>
  The example run to its end: the provider raises on one of the three requests, and
  \<^verbatim>\<open>main\<close> still writes the target file, with the source text for that key.
\<close>

lemma ex_main:
  "main (\<lambda>n t l. if t = ''Bye'' then Inl ProviderError else Inr ('' <'' @ t @ ''> '')) ''de'' ''German''
     [(''a'', Leaf ''Hallo''), (''e'', Leaf [])]
     [(''a'', ''Hello''), (''b'', ''Bye''), (''c'', ''See''), (''e'', ''E'')]
   = Inr (
       ''{'' @ [CHR 0x0A] @ ''  '' @ [CHR 0x22] @ ''de'' @ [CHR 0x22] @ '': {'' @
       [CHR 0x0A] @ ''    '' @ [CHR 0x22] @ ''a'' @ [CHR 0x22] @ '': '' @ [CHR 0x22] @
       ''Hallo'' @ [CHR 0x22] @ '','' @ [CHR 0x0A] @ ''    '' @ [CHR 0x22] @ ''b'' @
       [CHR 0x22] @ '': '' @ [CHR 0x22] @ ''Bye'' @ [CHR 0x22] @ '','' @ [CHR 0x0A] @
       ''    '' @ [CHR 0x22] @ ''c'' @ [CHR 0x22] @ '': '' @ [CHR 0x22] @ ''<See>'' @
       [CHR 0x22] @ '','' @ [CHR 0x0A] @ ''    '' @ [CHR 0x22] @ ''e'' @ [CHR 0x22] @
       '': '' @ [CHR 0x22] @ ''<E>'' @ [CHR 0x22] @ [CHR 0x0A] @ ''  }'' @ [CHR 0x0A] @
       ''}'')"
  by code_simp

lemma remove_en_prefix_keys:
  "fst ` set (remove_en_prefix dictionary prefix) =
     drop (length prefix) ` {k \<in> fst ` set dictionary. take (length prefix) k = prefix}"
  by (auto simp: remove_en_prefix_def dict_of_def keys_dict_update image_iff) force+

text \<open>
  C1. If the flattened target catalog holds a non-empty string for \<open>k\<close> before the run,
  then after the merge of line 184 it holds the same string for \<open>k\<close>, whatever
  \<open>to_translate\<close> contains, and no request to the translation provider is made for
  \<open>k\<close>.
\<close>

theorem non_overwrite:
  assumes "map_of (flatten_dict target_dict []) k = Some t" and "t \<noteq> []"
  shows "map_of (merged_flat P target_language target_dict to_translate) k = Some t
    \<and> k \<notin> fst ` set (calls (run_loop P target_language target_dict to_translate))"
proof -
  have "has_translation (flatten_dict target_dict []) k"
    using assms by (simp add: has_translation_def)
  then have "k \<notin> fst ` set (pending (flatten_dict target_dict []) to_translate)"
    by (simp add: pending_keys)
  then show ?thesis
    using assms(1)
    by (simp add: merged_flat_def map_of_dict_update_other run_loop_translated_keys run_loop_calls_keys)
qed

theorem non_overwrite_witness:
  "map_of (flatten_dict [(''a'', Leaf ''Hallo''), (''e'', Leaf [])] []) ''a'' = Some ''Hallo'' \<and> ''Hallo'' \<noteq> []
   \<and> ''a'' \<in> fst ` set [(''a'', ''Hello''), (''b'', ''Bye''), (''c'', ''See''), (''e'', ''E'')]
   \<and> map_of (merged_flat (\<lambda>n t l. if t = ''Bye'' then Inl ProviderError else Inr ('' <'' @ t @ ''> '')) ''German'' [(''a'', Leaf ''Hallo''), (''e'', Leaf [])] [(''a'', ''Hello''), (''b'', ''Bye''), (''c'', ''See''), (''e'', ''E'')]) ''a'' = Some ''Hallo''
   \<and> ''a'' \<notin> fst ` set (calls (run_loop (\<lambda>n t l. if t = ''Bye'' then Inl ProviderError else Inr ('' <'' @ t @ ''> '')) ''German'' [(''a'', Leaf ''Hallo''), (''e'', Leaf [])] [(''a'', ''Hello''), (''b'', ''Bye''), (''c'', ''See''), (''e'', ''E'')]))"
proof -
  have h1: "map_of (flatten_dict [(''a'', Leaf ''Hallo''), (''e'', Leaf [])] []) ''a'' = Some ''Hallo''"
    by (simp add: ex_flat)
  have h2: "''Hallo'' \<noteq> []" by simp
  have h3: "''a'' \<in> fst ` set [(''a'', ''Hello''), (''b'', ''Bye''), (''c'', ''See''), (''e'', ''E'')]" by simp
  from non_overwrite [OF h1 h2, of "(\<lambda>n t l. if t = ''Bye'' then Inl ProviderError else Inr ('' <'' @ t @ ''> ''))" "''German''" "[(''a'', ''Hello''), (''b'', ''Bye''), (''c'', ''See''), (''e'', ''E'')]"] h1 h2 h3
  show ?thesis by blast
qed

text \<open>
  C9. A key that the run does not translate keeps the value it had in the flattened
  target catalog, empty or not (and is absent after the merge if it was absent before);
  the keys the run translates are those of \<open>to_translate\<close> without a non-empty
  translation; every key of the flattened target catalog is still a key after the merge.
\<close>

theorem merge_frame:
  "(k \<notin> fst ` set (translated_flat_dict (run_loop P target_language target_dict to_translate))
      \<longrightarrow> map_of (merged_flat P target_language target_dict to_translate) k
          = map_of (flatten_dict target_dict []) k)
   \<and> ((k \<in> fst ` set (translated_flat_dict (run_loop P target_language target_dict to_translate)))
        = (k \<in> fst ` set to_translate \<and> \<not> has_translation (flatten_dict target_dict []) k))
   \<and> fst ` set (flatten_dict target_dict [])
        \<subseteq> fst ` set (merged_flat P target_language target_dict to_translate)"
  by (simp add: merged_flat_def map_of_dict_update_other keys_dict_update
      run_loop_translated_keys pending_keys)

theorem merge_frame_witness:
  "''a'' \<notin> fst ` set (translated_flat_dict (run_loop (\<lambda>n t l. if t = ''Bye'' then Inl ProviderError else Inr ('' <'' @ t @ ''> '')) ''German'' [(''a'', Leaf ''Hallo''), (''e'', Leaf [])] [(''a'', ''Hello''), (''b'', ''Bye''), (''c'', ''See''), (''e'', ''E'')]))
   \<and> map_of (merged_flat (\<lambda>n t l. if t = ''Bye'' then Inl ProviderError else Inr ('' <'' @ t @ ''> '')) ''German'' [(''a'', Leaf ''Hallo''), (''e'', Leaf [])] [(''a'', ''Hello''), (''b'', ''Bye''), (''c'', ''See''), (''e'', ''E'')]) ''a'' = map_of (flatten_dict [(''a'', Leaf ''Hallo''), (''e'', Leaf [])] []) ''a''
   \<and> fst ` set (flatten_dict [(''a'', Leaf ''Hallo''), (''e'', Leaf [])] []) \<subseteq> fst ` set (merged_flat (\<lambda>n t l. if t = ''Bye'' then Inl ProviderError else Inr ('' <'' @ t @ ''> '')) ''German'' [(''a'', Leaf ''Hallo''), (''e'', Leaf [])] [(''a'', ''Hello''), (''b'', ''Bye''), (''c'', ''See''), (''e'', ''E'')])"
proof -
  have h: "''a'' \<notin> fst ` set (translated_flat_dict (run_loop (\<lambda>n t l. if t = ''Bye'' then Inl ProviderError else Inr ('' <'' @ t @ ''> '')) ''German'' [(''a'', Leaf ''Hallo''), (''e'', Leaf [])] [(''a'', ''Hello''), (''b'', ''Bye''), (''c'', ''See''), (''e'', ''E'')]))"
    by (simp add: ex_run)
  from merge_frame [of "''a''" "(\<lambda>n t l. if t = ''Bye'' then Inl ProviderError else Inr ('' <'' @ t @ ''> ''))" "''German''" "[(''a'', Leaf ''Hallo''), (''e'', Leaf [])]" "[(''a'', ''Hello''), (''b'', ''Bye''), (''c'', ''See''), (''e'', ''E'')]"] h
  show ?thesis by blast
qed

text \<open>
  C10. For an item \<open>(k, v)\<close> of \<open>to_translate\<close> (a dict) whose key is absent from
  the flattened target catalog or has the empty string there, the run makes a request
  for \<open>k\<close> with the text \<open>v\<close>, and after the merge the target holds for \<open>k\<close> what
  \<^verbatim>\<open>translate_text\<close> returned for that request.
\<close>

theorem empty_value_retranslated:
  assumes "distinct (map fst to_translate)" and "(k, v) \<in> set to_translate"
    and "map_of (flatten_dict target_dict []) k = None \<or> map_of (flatten_dict target_dict []) k = Some []"
  shows "\<exists>n < length (calls (run_loop P target_language target_dict to_translate)).
           calls (run_loop P target_language target_dict to_translate) ! n = (k, v, P n v target_language)
         \<and> map_of (merged_flat P target_language target_dict to_translate) k
             = Some (translate_text P n v target_language)"
proof -
  let ?pd = "pending (flatten_dict target_dict []) to_translate"
  have "\<not> has_translation (flatten_dict target_dict []) k"
    using assms(3) by (auto simp: has_translation_def)
  with assms(2) have "(k, v) \<in> set ?pd" by (simp add: pending_def)
  then obtain n where n: "n < length ?pd" "?pd ! n = (k, v)"
    unfolding in_set_conv_nth by blast
  have "n < length (calls (run_loop P target_language target_dict to_translate))"
    using n(1) by (simp only: run_loop_calls_length)
  moreover have "calls (run_loop P target_language target_dict to_translate) ! n = (k, v, P n v target_language)"
    using n by (rule run_loop_request_call)
  moreover have "map_of (merged_flat P target_language target_dict to_translate) k
             = Some (translate_text P n v target_language)"
    using assms(1) n by (rule run_loop_request_value(2))
  ultimately show ?thesis by blast
qed

theorem empty_value_retranslated_witness:
  "distinct (map fst [(''a'', ''Hello''), (''b'', ''Bye''), (''c'', ''See''), (''e'', ''E'')]) \<and> (''e'', ''E'') \<in> set [(''a'', ''Hello''), (''b'', ''Bye''), (''c'', ''See''), (''e'', ''E'')]
   \<and> map_of (flatten_dict [(''a'', Leaf ''Hallo''), (''e'', Leaf [])] []) ''e'' = Some []
   \<and> calls (run_loop (\<lambda>n t l. if t = ''Bye'' then Inl ProviderError else Inr ('' <'' @ t @ ''> '')) ''German'' [(''a'', Leaf ''Hallo''), (''e'', Leaf [])] [(''a'', ''Hello''), (''b'', ''Bye''), (''c'', ''See''), (''e'', ''E'')]) ! 2 = (''e'', ''E'', Inr '' <E> '')
   \<and> map_of (merged_flat (\<lambda>n t l. if t = ''Bye'' then Inl ProviderError else Inr ('' <'' @ t @ ''> '')) ''German'' [(''a'', Leaf ''Hallo''), (''e'', Leaf [])] [(''a'', ''Hello''), (''b'', ''Bye''), (''c'', ''See''), (''e'', ''E'')]) ''e'' = Some ''<E>''
   \<and> (\<exists>n < length (calls (run_loop (\<lambda>n t l. if t = ''Bye'' then Inl ProviderError else Inr ('' <'' @ t @ ''> '')) ''German'' [(''a'', Leaf ''Hallo''), (''e'', Leaf [])] [(''a'', ''Hello''), (''b'', ''Bye''), (''c'', ''See''), (''e'', ''E'')])).
         calls (run_loop (\<lambda>n t l. if t = ''Bye'' then Inl ProviderError else Inr ('' <'' @ t @ ''> '')) ''German'' [(''a'', Leaf ''Hallo''), (''e'', Leaf [])] [(''a'', ''Hello''), (''b'', ''Bye''), (''c'', ''See''), (''e'', ''E'')]) ! n = (''e'', ''E'', (\<lambda>n t l. if t = ''Bye'' then Inl ProviderError else Inr ('' <'' @ t @ ''> '')) n ''E'' ''German'')
       \<and> map_of (merged_flat (\<lambda>n t l. if t = ''Bye'' then Inl ProviderError else Inr ('' <'' @ t @ ''> '')) ''German'' [(''a'', Leaf ''Hallo''), (''e'', Leaf [])] [(''a'', ''Hello''), (''b'', ''Bye''), (''c'', ''See''), (''e'', ''E'')]) ''e'' = Some (translate_text (\<lambda>n t l. if t = ''Bye'' then Inl ProviderError else Inr ('' <'' @ t @ ''> '')) n ''E'' ''German''))"
proof -
  have h1: "distinct (map fst [(''a'', ''Hello''), (''b'', ''Bye''), (''c'', ''See''), (''e'', ''E'')])" by simp
  have h2: "(''e'', ''E'') \<in> set [(''a'', ''Hello''), (''b'', ''Bye''), (''c'', ''See''), (''e'', ''E'')]" by simp
  have h3: "map_of (flatten_dict [(''a'', Leaf ''Hallo''), (''e'', Leaf [])] []) ''e'' = Some []" by (simp add: ex_flat)
  have h3': "map_of (flatten_dict [(''a'', Leaf ''Hallo''), (''e'', Leaf [])] []) ''e'' = None \<or> map_of (flatten_dict [(''a'', Leaf ''Hallo''), (''e'', Leaf [])] []) ''e'' = Some []"
    using h3 by simp
  have c: "calls (run_loop (\<lambda>n t l. if t = ''Bye'' then Inl ProviderError else Inr ('' <'' @ t @ ''> '')) ''German'' [(''a'', Leaf ''Hallo''), (''e'', Leaf [])] [(''a'', ''Hello''), (''b'', ''Bye''), (''c'', ''See''), (''e'', ''E'')]) ! 2 = (''e'', ''E'', Inr '' <E> '')"
    by (simp add: ex_run)
  have m: "map_of (merged_flat (\<lambda>n t l. if t = ''Bye'' then Inl ProviderError else Inr ('' <'' @ t @ ''> '')) ''German'' [(''a'', Leaf ''Hallo''), (''e'', Leaf [])] [(''a'', ''Hello''), (''b'', ''Bye''), (''c'', ''See''), (''e'', ''E'')]) ''e'' = Some ''<E>''"
    by (simp add: ex_merged)
  from empty_value_retranslated [OF h1 h2 h3', of "(\<lambda>n t l. if t = ''Bye'' then Inl ProviderError else Inr ('' <'' @ t @ ''> ''))" "''German''"] h1 h2 h3 c m
  show ?thesis by blast
qed

text \<open>
  C4. When the request number \<open>n\<close> of a run, made for the key \<open>k\<close> with the text
  \<open>v\<close>, raises, the value recorded for \<open>k\<close> is \<open>v\<close>, in \<^verbatim>\<open>translated_flat_dict\<close>
  and in the target after the merge. The loop goes on all the same: it makes one request
  for every item of \<open>to_translate\<close> (a dict) without a non-empty translation, and
  records a value for each of them.
\<close>

theorem provider_failure_fallback:
  assumes "distinct (map fst to_translate)"
    and "n < length (calls (run_loop P target_language target_dict to_translate))"
    and "calls (run_loop P target_language target_dict to_translate) ! n = (k, v, Inl e)"
  shows "(k, v) \<in> set to_translate
    \<and> map_of (translated_flat_dict (run_loop P target_language target_dict to_translate)) k = Some v
    \<and> map_of (merged_flat P target_language target_dict to_translate) k = Some v
    \<and> length (calls (run_loop P target_language target_dict to_translate))
        = length (filter (\<lambda>kv. \<not> has_translation (flatten_dict target_dict []) (fst kv)) to_translate)
    \<and> (\<forall>kv \<in> set to_translate. \<not> has_translation (flatten_dict target_dict []) (fst kv) \<longrightarrow>
          fst kv \<in> fst ` set (translated_flat_dict (run_loop P target_language target_dict to_translate)))"
proof -
  let ?pd = "pending (flatten_dict target_dict []) to_translate"
  have n: "n < length ?pd" using assms(2) by (simp only: run_loop_calls_length)
  obtain k' v' where kv: "?pd ! n = (k', v')" by (cases "?pd ! n")
  have "calls (run_loop P target_language target_dict to_translate) ! n = (k', v', P n v' target_language)"
    using n kv by (rule run_loop_request_call)
  with assms(3) have eq: "k' = k" "v' = v" and fail: "P n v target_language = Inl e" by auto
  have "?pd ! n \<in> set ?pd" using n by (rule nth_mem)
  then have "(k, v) \<in> set ?pd" by (simp only: kv eq)
  then have mem: "(k, v) \<in> set to_translate" by (simp add: pending_def)
  have fallback: "translate_text P n v target_language = v"
    using fail by (simp add: translate_text_def)
  have pd: "?pd ! n = (k, v)" using kv eq by simp
  have v1: "map_of (translated_flat_dict (run_loop P target_language target_dict to_translate)) k = Some v"
    using run_loop_request_value(1) [OF assms(1) n pd, of P target_language]
    by (simp only: fallback)
  have v2: "map_of (merged_flat P target_language target_dict to_translate) k = Some v"
    using run_loop_request_value(2) [OF assms(1) n pd, of P target_language]
    by (simp only: fallback)
  have len: "length (calls (run_loop P target_language target_dict to_translate))
        = length (filter (\<lambda>kv. \<not> has_translation (flatten_dict target_dict []) (fst kv)) to_translate)"
    by (simp only: run_loop_calls_length pending_def)
  have cont: "\<forall>kv \<in> set to_translate. \<not> has_translation (flatten_dict target_dict []) (fst kv) \<longrightarrow>
          fst kv \<in> fst ` set (translated_flat_dict (run_loop P target_language target_dict to_translate))"
    by (simp add: run_loop_translated_keys pending_keys)
  from mem v1 v2 len cont show ?thesis by blast
qed

theorem provider_failure_fallback_witness:
  "distinct (map fst [(''a'', ''Hello''), (''b'', ''Bye''), (''c'', ''See''), (''e'', ''E'')]) \<and> 0 < length (calls (run_loop (\<lambda>n t l. if t = ''Bye'' then Inl ProviderError else Inr ('' <'' @ t @ ''> '')) ''German'' [(''a'', Leaf ''Hallo''), (''e'', Leaf [])] [(''a'', ''Hello''), (''b'', ''Bye''), (''c'', ''See''), (''e'', ''E'')]))
   \<and> calls (run_loop (\<lambda>n t l. if t = ''Bye'' then Inl ProviderError else Inr ('' <'' @ t @ ''> '')) ''German'' [(''a'', Leaf ''Hallo''), (''e'', Leaf [])] [(''a'', ''Hello''), (''b'', ''Bye''), (''c'', ''See''), (''e'', ''E'')]) ! 0 = (''b'', ''Bye'', Inl ProviderError)
   \<and> map_of (merged_flat (\<lambda>n t l. if t = ''Bye'' then Inl ProviderError else Inr ('' <'' @ t @ ''> '')) ''German'' [(''a'', Leaf ''Hallo''), (''e'', Leaf [])] [(''a'', ''Hello''), (''b'', ''Bye''), (''c'', ''See''), (''e'', ''E'')]) ''b'' = Some ''Bye''
   \<and> length (calls (run_loop (\<lambda>n t l. if t = ''Bye'' then Inl ProviderError else Inr ('' <'' @ t @ ''> '')) ''German'' [(''a'', Leaf ''Hallo''), (''e'', Leaf [])] [(''a'', ''Hello''), (''b'', ''Bye''), (''c'', ''See''), (''e'', ''E'')])) = 3
   \<and> map_of (merged_flat (\<lambda>n t l. if t = ''Bye'' then Inl ProviderError else Inr ('' <'' @ t @ ''> '')) ''German'' [(''a'', Leaf ''Hallo''), (''e'', Leaf [])] [(''a'', ''Hello''), (''b'', ''Bye''), (''c'', ''See''), (''e'', ''E'')]) ''c'' = Some ''<See>''"
proof -
  have h1: "distinct (map fst [(''a'', ''Hello''), (''b'', ''Bye''), (''c'', ''See''), (''e'', ''E'')])" by simp
  have h2: "0 < length (calls (run_loop (\<lambda>n t l. if t = ''Bye'' then Inl ProviderError else Inr ('' <'' @ t @ ''> '')) ''German'' [(''a'', Leaf ''Hallo''), (''e'', Leaf [])] [(''a'', ''Hello''), (''b'', ''Bye''), (''c'', ''See''), (''e'', ''E'')]))" by (simp add: ex_run)
  have h3: "calls (run_loop (\<lambda>n t l. if t = ''Bye'' then Inl ProviderError else Inr ('' <'' @ t @ ''> '')) ''German'' [(''a'', Leaf ''Hallo''), (''e'', Leaf [])] [(''a'', ''Hello''), (''b'', ''Bye''), (''c'', ''See''), (''e'', ''E'')]) ! 0 = (''b'', ''Bye'', Inl ProviderError)"
    by (simp add: ex_run)
  have l: "length (calls (run_loop (\<lambda>n t l. if t = ''Bye'' then Inl ProviderError else Inr ('' <'' @ t @ ''> '')) ''German'' [(''a'', Leaf ''Hallo''), (''e'', Leaf [])] [(''a'', ''Hello''), (''b'', ''Bye''), (''c'', ''See''), (''e'', ''E'')])) = 3" by (simp add: ex_run)
  have c: "map_of (merged_flat (\<lambda>n t l. if t = ''Bye'' then Inl ProviderError else Inr ('' <'' @ t @ ''> '')) ''German'' [(''a'', Leaf ''Hallo''), (''e'', Leaf [])] [(''a'', ''Hello''), (''b'', ''Bye''), (''c'', ''See''), (''e'', ''E'')]) ''c'' = Some ''<See>''" by (simp add: ex_merged)
  from provider_failure_fallback [OF h1 h2 h3] h1 h2 h3 l c
  show ?thesis by blast
qed

section \<open>Change detection\<close>

lemma detect_loop_sets:
  "detect_loop cf pf keys (added, changed) = (added', changed') \<Longrightarrow>
   set (added' @ changed') = set (added @ changed) \<union>
     {k \<in> set keys. map_of pf k = None \<or> map_of cf k \<noteq> map_of pf k}"
  by (induction keys arbitrary: added changed) (auto split: if_splits)

lemma detect_changes_set:
  "detect_changes current_dict previous_dict =
     {k \<in> fst ` set (flatten_dict current_dict []).
        map_of (flatten_dict previous_dict []) k = None
        \<or> map_of (flatten_dict current_dict []) k \<noteq> map_of (flatten_dict previous_dict []) k}"
proof -
  let ?cf = "flatten_dict current_dict []" and ?pf = "flatten_dict previous_dict []"
  obtain a c where ac: "detect_loop ?cf ?pf (map fst ?cf) ([], []) = (a, c)"
    by (cases "detect_loop ?cf ?pf (map fst ?cf) ([], [])")
  have "detect_changes current_dict previous_dict = set (a @ c)"
    using ac by (simp add: detect_changes_def)
  also have "\<dots> = {k \<in> set (map fst ?cf). map_of ?pf k = None \<or> map_of ?cf k \<noteq> map_of ?pf k}"
    using detect_loop_sets [OF ac] by simp
  finally show ?thesis by simp
qed

text \<open>
  C2. A path \<open>k\<close> is in \<^verbatim>\<open>detect_changes(current, previous)\<close> exactly when the flattened
  current catalog has a value for \<open>k\<close> and the flattened previous catalog has none, or
  has a different string. So every path of the result is a key of the flattened current
  catalog, a path absent from both is not in the result, and a path with the same value
  in both is not in the result.
\<close>

theorem detect_changes_characterization:
  "((k \<in> detect_changes current_dict previous_dict) =
      (\<exists>v. map_of (flatten_dict current_dict []) k = Some v \<and>
           (map_of (flatten_dict previous_dict []) k = None \<or>
            (\<exists>w. map_of (flatten_dict previous_dict []) k = Some w \<and> w \<noteq> v))))
   \<and> (k \<in> detect_changes current_dict previous_dict \<longrightarrow>
        k \<in> fst ` set (flatten_dict current_dict []))
   \<and> (map_of (flatten_dict current_dict []) k = None \<and>
        map_of (flatten_dict previous_dict []) k = None \<longrightarrow>
        k \<notin> detect_changes current_dict previous_dict)
   \<and> (\<forall>v. map_of (flatten_dict current_dict []) k = Some v \<and>
            map_of (flatten_dict previous_dict []) k = Some v \<longrightarrow>
            k \<notin> detect_changes current_dict previous_dict)"
proof -
  let ?cf = "flatten_dict current_dict []" and ?pf = "flatten_dict previous_dict []"
  have dom: "(k \<in> fst ` set ?cf) = (\<exists>v. map_of ?cf k = Some v)"
    using map_of_eq_None_iff [of ?cf k] by auto
  have mem: "(k \<in> detect_changes current_dict previous_dict) =
      ((\<exists>v. map_of ?cf k = Some v) \<and> (map_of ?pf k = None \<or> map_of ?cf k \<noteq> map_of ?pf k))"
    unfolding detect_changes_set using dom by simp
  show ?thesis
  proof (cases "map_of ?cf k")
    case None
    then show ?thesis using mem dom by simp
  next
    case (Some v)
    then show ?thesis using mem dom by (cases "map_of ?pf k") auto
  qed
qed

theorem detect_changes_characterization_witness:
  "detect_changes [(''en'', Node [(''a'', Leaf ''Hello''), (''b'', Leaf ''Bye'')])]
       [(''en'', Node [(''a'', Leaf ''Hello'')])] = {''en|b''}
   \<and> detect_changes [(''en'', Node [(''a'', Leaf ''Hello'')])] [] = {''en|a''}
   \<and> detect_changes [(''en'', Node [(''a'', Leaf ''Hello'')])] [(''en'', Node [(''a'', Leaf ''Hi'')])]
       = {''en|a''}
   \<and> map_of (flatten_dict [(''en'', Node [(''a'', Leaf ''Hello''), (''b'', Leaf ''Bye'')])] []) ''en|a''
       = Some ''Hello''
   \<and> map_of (flatten_dict [(''en'', Node [(''a'', Leaf ''Hello'')])] []) ''en|a'' = Some ''Hello''
   \<and> ''en|a'' \<notin> detect_changes [(''en'', Node [(''a'', Leaf ''Hello''), (''b'', Leaf ''Bye'')])]
       [(''en'', Node [(''a'', Leaf ''Hello'')])]
   \<and> map_of (flatten_dict [(''en'', Node [(''a'', Leaf ''Hello''), (''b'', Leaf ''Bye'')])] []) ''zz'' = None
   \<and> map_of (flatten_dict [(''en'', Node [(''a'', Leaf ''Hello'')])] []) ''zz'' = None
   \<and> ''zz'' \<notin> detect_changes [(''en'', Node [(''a'', Leaf ''Hello''), (''b'', Leaf ''Bye'')])]
       [(''en'', Node [(''a'', Leaf ''Hello'')])]"
proof -
  let ?cur = "[(''en'', Node [(''a'', Leaf ''Hello''), (''b'', Leaf ''Bye'')])]"
  let ?prev = "[(''en'', Node [(''a'', Leaf ''Hello'')])]"
  have fc: "flatten_dict ?cur [] = [(''en|a'', ''Hello''), (''en|b'', ''Bye'')]"
    by (simp add: flatten_dict_def dict_of_def dict_update_def dict_set_def new_key_def sep_def)
  have fp: "flatten_dict ?prev [] = [(''en|a'', ''Hello'')]"
    by (simp add: flatten_dict_def dict_of_def dict_update_def dict_set_def new_key_def sep_def)
  have fh: "flatten_dict [(''en'', Node [(''a'', Leaf ''Hi'')])] [] = [(''en|a'', ''Hi'')]"
    by (simp add: flatten_dict_def dict_of_def dict_update_def dict_set_def new_key_def sep_def)
  have fe: "flatten_dict [] [] = ([] :: flat)"
    by (simp add: flatten_dict_def dict_of_def dict_update_def)
  have sB: "detect_changes ?cur ?prev = {''en|b''}"
    by (simp add: detect_changes_def fc fp)
  have sA: "detect_changes ?prev [] = {''en|a''}"
    by (simp add: detect_changes_def fp fe)
  have sC: "detect_changes ?prev [(''en'', Node [(''a'', Leaf ''Hi'')])] = {''en|a''}"
    by (simp add: detect_changes_def fp fh)
  have h1: "map_of (flatten_dict ?cur []) ''en|a'' = Some ''Hello''" by (simp add: fc)
  have h2: "map_of (flatten_dict ?prev []) ''en|a'' = Some ''Hello''" by (simp add: fp)
  have h3: "map_of (flatten_dict ?cur []) ''zz'' = None" by (simp add: fc)
  have h4: "map_of (flatten_dict ?prev []) ''zz'' = None" by (simp add: fp)
  from detect_changes_characterization [of "''en|a''" ?cur ?prev] h1 h2
  have r1: "''en|a'' \<notin> detect_changes ?cur ?prev" by blast
  from detect_changes_characterization [of "''zz''" ?cur ?prev] h3 h4
  have r2: "''zz'' \<notin> detect_changes ?cur ?prev" by blast
  from sB sA sC h1 h2 r1 h3 h4 r2 show ?thesis by blast
qed

section \<open>Idempotence of the merge\<close>

lemma dict_update_Cons:
  "dict_update d ((k, v) # other) = dict_update (dict_set d k v) other"
  by (simp add: dict_update_def)

lemma dict_update_Nil: "dict_update d [] = d"
  by (simp add: dict_update_def)

lemma dict_update_head:
  "dict_update ((k0, v0) # T) D =
     (k0, case map_of (rev D) k0 of None \<Rightarrow> v0 | Some v \<Rightarrow> v)
       # dict_update T (filter (\<lambda>kv. fst kv \<noteq> k0) D)"
proof (induction D arbitrary: v0 T)
  case Nil
  show ?case by (simp add: dict_update_Nil)
next
  case (Cons x D)
  obtain k v where x: "x = (k, v)" by (cases x)
  show ?case
  proof (cases "k = k0")
    case True
    have "dict_update ((k0, v0) # T) (x # D) = dict_update ((k0, v) # T) D"
      by (simp add: x True dict_update_Cons dict_set_def)
    then show ?thesis
      by (simp add: Cons.IH x True map_add_def split: option.splits)
  next
    case False
    have "dict_update ((k0, v0) # T) (x # D) = dict_update ((k0, v0) # dict_set T k v) D"
      using False by (simp add: x dict_update_Cons dict_set_def)
    then show ?thesis
      using False by (simp add: Cons.IH x dict_update_Cons map_add_def split: option.splits)
  qed
qed

lemma dict_update_idem_Nil: "dict_update (dict_update [] D) D = dict_update [] D"
proof (induction "length D" arbitrary: D rule: less_induct)
  case less
  show ?case
  proof (cases D)
    case Nil
    then show ?thesis by (simp add: dict_update_Nil)
  next
    case (Cons x D')
    obtain k v where x: "x = (k, v)" by (cases x)
    let ?F = "filter (\<lambda>kv. fst kv \<noteq> k) D'"
    let ?w = "case map_of (rev D') k of None \<Rightarrow> v | Some u \<Rightarrow> u"
    have once: "dict_update [] D = (k, ?w) # dict_update [] ?F"
      by (simp add: Cons x dict_update_Cons dict_set_def dict_update_head)
    have last: "map_of (rev D) k = Some ?w"
      by (simp add: Cons x map_add_def split: option.splits)
    have "length ?F < length D" by (simp add: Cons less_Suc_eq_le)
    then have IH: "dict_update (dict_update [] ?F) ?F = dict_update [] ?F" by (rule less)
    have "filter (\<lambda>kv. fst kv \<noteq> k) D = ?F" by (simp add: Cons x)
    then have "dict_update ((k, ?w) # dict_update [] ?F) D = (k, ?w) # dict_update (dict_update [] ?F) ?F"
      using last by (simp add: dict_update_head [of k ?w _ D])
    then show ?thesis by (simp only: once IH)
  qed
qed

text \<open>
  C5. The merge of line 184 is \<^verbatim>\<open>target_flat.update(translated_flat_dict)\<close>. Applying
  it a second time with the same translations changes nothing: for every \<open>T\<close> and \<open>D\<close>,
  \<open>merge(merge(T, D), D) = merge(T, D)\<close>, values and key order alike.
\<close>

theorem merge_idempotent: "dict_update (dict_update T D) D = dict_update T D"
proof (induction T arbitrary: D)
  case Nil
  show ?case by (rule dict_update_idem_Nil)
next
  case (Cons x T)
  obtain k0 v0 where x: "x = (k0, v0)" by (cases x)
  let ?F = "filter (\<lambda>kv. fst kv \<noteq> k0) D"
  let ?w = "case map_of (rev D) k0 of None \<Rightarrow> v0 | Some u \<Rightarrow> u"
  have once: "dict_update (x # T) D = (k0, ?w) # dict_update T ?F"
    by (simp only: x dict_update_head)
  have "dict_update ((k0, ?w) # dict_update T ?F) D
      = (k0, case map_of (rev D) k0 of None \<Rightarrow> ?w | Some u \<Rightarrow> u) # dict_update (dict_update T ?F) ?F"
    by (simp only: dict_update_head)
  also have "(case map_of (rev D) k0 of None \<Rightarrow> ?w | Some u \<Rightarrow> u) = ?w"
    by (simp split: option.splits)
  also have "dict_update (dict_update T ?F) ?F = dict_update T ?F" by (rule Cons.IH)
  finally show ?case by (simp only: once)
qed

section \<open>Snapshot degradation\<close>

lemma flatten_dict_Nil: "flatten_dict [] parent_key = []"
  by (simp add: flatten_dict_def dict_of_def dict_update_def)

lemma detect_changes_empty_previous:
  "detect_changes current_dict [] = fst ` set (flatten_dict current_dict [])"
  by (simp add: detect_changes_set flatten_dict_Nil)

text \<open>
  C7 (amended). When the repository opens, \<^verbatim>\<open>git fetch --all\<close> succeeds and the
  revisions of the file are listed, the retrieval returns the empty catalog whenever
  fewer than two revisions touched the file, and whenever reading or decoding the file of
  the second most recent revision raises; and when that file decodes to a value, the
  retrieval returns that value as decoded, whatever its shape. With the empty catalog as
  the previous one, the change set is every path of the flattened current catalog.
\<close>

theorem snapshot_degradation:
  assumes "fetch_all r = None" and "file_commits r = Inr cs"
  shows "(length cs < 2 \<or> (\<exists>e. previous_version r (cs ! 1) = Inl e) \<longrightarrow>
            load_en_changes_from_last_commits (Inr r) = Inr (Node []))
    \<and> (\<forall>v. 2 \<le> length cs \<and> previous_version r (cs ! 1) = Inr v \<longrightarrow>
            load_en_changes_from_last_commits (Inr r) = Inr v)
    \<and> detect_changes current_dict [] = fst ` set (flatten_dict current_dict [])"
proof -
  have short: "load_en_changes_from_last_commits (Inr r) = Inr (Node [])" if "length cs < 2"
    using that assms by (simp add: load_en_changes_from_last_commits_def)
  have raised: "load_en_changes_from_last_commits (Inr r) = Inr (Node [])"
    if "2 \<le> length cs" and "previous_version r (cs ! 1) = Inl e" for e
    using that assms by (simp add: load_en_changes_from_last_commits_def)
  have decoded: "load_en_changes_from_last_commits (Inr r) = Inr v"
    if "2 \<le> length cs" and "previous_version r (cs ! 1) = Inr v" for v
    using that assms by (simp add: load_en_changes_from_last_commits_def)
  have "load_en_changes_from_last_commits (Inr r) = Inr (Node [])"
    if "length cs < 2 \<or> (\<exists>e. previous_version r (cs ! 1) = Inl e)"
  proof (cases "length cs < 2")
    case True
    then show ?thesis by (rule short)
  next
    case False
    with that obtain e where "previous_version r (cs ! 1) = Inl e" by blast
    moreover from False have "2 \<le> length cs" by simp
    ultimately show ?thesis using raised by blast
  qed
  with decoded show ?thesis by (simp add: detect_changes_empty_previous)
qed

theorem snapshot_degradation_witness:
  "fetch_all \<lparr>fetch_all = None, file_commits = Inr [7], previous_version = (\<lambda>c. Inl KeyError)\<rparr> = None
   \<and> file_commits \<lparr>fetch_all = None, file_commits = Inr [7], previous_version = (\<lambda>c. Inl KeyError)\<rparr>
       = Inr [7]
   \<and> length [7 :: nat] < 2
   \<and> load_en_changes_from_last_commits
        (Inr \<lparr>fetch_all = None, file_commits = Inr [7], previous_version = (\<lambda>c. Inl KeyError)\<rparr>)
       = Inr (Node [])
   \<and> previous_version \<lparr>fetch_all = None, file_commits = Inr [7, 4, 2],
          previous_version = (\<lambda>c. if c = 4 then Inl JSONDecodeError else Inr (Node []))\<rparr>
        ([7, 4, 2] ! 1)
       = Inl JSONDecodeError
   \<and> load_en_changes_from_last_commits
        (Inr \<lparr>fetch_all = None, file_commits = Inr [7, 4, 2],
          previous_version = (\<lambda>c. if c = 4 then Inl JSONDecodeError else Inr (Node []))\<rparr>)
       = Inr (Node [])
   \<and> 2 \<le> length [7 :: nat, 4, 2]
   \<and> previous_version \<lparr>fetch_all = None, file_commits = Inr [7, 4, 2],
          previous_version = (\<lambda>c. if c = 4 then Inr (Node [(''en'', Node [(''a'', Leaf ''Hi'')])])
                                else Inl KeyError)\<rparr>
        ([7, 4, 2] ! 1)
       = Inr (Node [(''en'', Node [(''a'', Leaf ''Hi'')])])
   \<and> load_en_changes_from_last_commits
        (Inr \<lparr>fetch_all = None, file_commits = Inr [7, 4, 2],
          previous_version = (\<lambda>c. if c = 4 then Inr (Node [(''en'', Node [(''a'', Leaf ''Hi'')])])
                                else Inl KeyError)\<rparr>)
       = Inr (Node [(''en'', Node [(''a'', Leaf ''Hi'')])])
   \<and> detect_changes [(''en'', Node [(''a'', Leaf ''Hello'')])] [] = {''en|a''}"
proof -
  let ?r1 = "\<lparr>fetch_all = None, file_commits = Inr [7], previous_version = (\<lambda>c. Inl KeyError)\<rparr>"
  let ?r2 = "\<lparr>fetch_all = None, file_commits = Inr [7, 4, 2],
          previous_version = (\<lambda>c. if c = 4 then Inl JSONDecodeError else Inr (Node []))\<rparr>"
  let ?v = "Node [(''en'', Node [(''a'', Leaf ''Hi'')])]"
  let ?r3 = "\<lparr>fetch_all = None, file_commits = Inr [7, 4, 2],
          previous_version = (\<lambda>c. if c = 4 then Inr ?v else Inl KeyError)\<rparr>"
  let ?cur = "[(''en'', Node [(''a'', Leaf ''Hello'')])]"
  have a1: "fetch_all ?r1 = None" by simp
  have a2: "file_commits ?r1 = Inr [7]" by simp
  have a3: "length [7 :: nat] < 2" by simp
  have b1: "fetch_all ?r2 = None" by simp
  have b2: "file_commits ?r2 = Inr [7, 4, 2]" by simp
  have b3: "previous_version ?r2 ([7, 4, 2] ! 1) = Inl JSONDecodeError" by simp
  have c1: "fetch_all ?r3 = None" by simp
  have c2: "file_commits ?r3 = Inr [7, 4, 2]" by simp
  have c3: "2 \<le> length [7 :: nat, 4, 2]" by simp
  have c4: "previous_version ?r3 ([7, 4, 2] ! 1) = Inr ?v" by simp
  have fl: "fst ` set (flatten_dict ?cur []) = {''en|a''}"
    by (simp add: flatten_dict_def dict_of_def dict_update_def dict_set_def new_key_def sep_def)
  from snapshot_degradation [OF a1 a2, of ?cur] a3
  have r1: "load_en_changes_from_last_commits (Inr ?r1) = Inr (Node [])"
    and dc: "detect_changes ?cur [] = fst ` set (flatten_dict ?cur [])" by blast+
  from snapshot_degradation [OF b1 b2, of ?cur] b3
  have r2: "load_en_changes_from_last_commits (Inr ?r2) = Inr (Node [])" by blast
  from snapshot_degradation [OF c1 c2, of ?cur] c3 c4
  have r3: "load_en_changes_from_last_commits (Inr ?r3) = Inr ?v" by blast
  from dc fl have dc': "detect_changes ?cur [] = {''en|a''}" by simp
  show ?thesis
    by (intro conjI) (fact a1 a2 a3 r1 b3 r2 c3 c4 r3 dc')+
qed

text \<open>
  C7 as the spec states it fails in two ways. With a single revision of the file and a
  \<^verbatim>\<open>git fetch --all\<close> that raises, the retrieval raises: lines 112-117 are outside
  the \<^verbatim>\<open>try\<close>. And a file whose older revision holds JSON that is not an object
  (here the JSON string \<^verbatim>\<open>"abc"\<close>) is decoded without an exception, so the decoded
  value is returned as it is, not the empty catalog.
\<close>

theorem snapshot_counterexample:
  "file_commits \<lparr>fetch_all = Some GitError, file_commits = Inr [7],
        previous_version = (\<lambda>c. Inl KeyError)\<rparr> = Inr [7]
   \<and> length [7 :: nat] < 2
   \<and> load_en_changes_from_last_commits
        (Inr \<lparr>fetch_all = Some GitError, file_commits = Inr [7], previous_version = (\<lambda>c. Inl KeyError)\<rparr>)
       = Inl GitError
   \<and> load_en_changes_from_last_commits
        (Inr \<lparr>fetch_all = None, file_commits = Inr [7, 4], previous_version = (\<lambda>c. Inr (Leaf ''abc''))\<rparr>)
       = Inr (Leaf ''abc'')
   \<and> Leaf ''abc'' \<noteq> Node []"
  by (simp add: load_en_changes_from_last_commits_def)

section \<open>Empty nested dicts\<close>

lemma flatten_items_prune: "flatten_items (prune d) parent_key = flatten_items d parent_key"
proof (induction d parent_key rule: flatten_items.induct)
  case (1 parent_key)
  show ?case by simp
next
  case (2 k s d parent_key)
  then show ?case by simp
next
  case (3 k sub d parent_key)
  show ?case
  proof (cases "prune sub = []")
    case True
    with "3.IH"(1) have "flatten_items sub (new_key parent_key k) = []" by simp
    then show ?thesis using True "3.IH"(2) by (simp add: dict_of_def dict_update_def)
  next
    case False
    then show ?thesis using "3.IH" by simp
  qed
qed

lemma prune_no_empty: "\<not> has_empty_dict (Node (prune d))"
  by (induction d rule: prune.induct) auto

lemma prune_keys: "fst ` set (prune d) \<subseteq> fst ` set d"
  by (induction d rule: prune.induct) auto

lemma prune_wf: "wf_dict d \<Longrightarrow> wf_dict (prune d)"
proof (induction d rule: prune.induct)
  case 1
  show ?case by (simp add: wf_dict_Nil)
next
  case (2 k s d)
  then show ?case using prune_keys [of d] by (auto simp: wf_dict_Cons)
next
  case (3 k sub d)
  then show ?case using prune_keys [of d]
    by (auto simp: wf_dict_Cons wf_catalog_Node simp del: wf_catalog.simps)
qed

lemma prune_sep_free: "sep_free (Node d) \<Longrightarrow> sep_free (Node (prune d))"
  by (induction d rule: prune.induct) auto

lemma prune_top_keys_ok: "top_keys_ok d \<Longrightarrow> top_keys_ok (prune d)"
  by (induction d rule: prune.induct) (auto simp: top_keys_ok_def)

lemma set_dict_set: "set (dict_set d k v) \<subseteq> insert (k, v) (set d)"
  unfolding dict_set_def by (induction d) auto

lemma has_empty_dict_iff:
  "has_empty_dict (Node d) = (\<exists>kv \<in> set d. snd kv = Node [] \<or> has_empty_dict (snd kv))"
  by (simp add: list_ex_iff)

lemma set_path_no_empty:
  "set_path c ks v = Inr c' \<Longrightarrow> \<not> has_empty_dict c \<Longrightarrow> \<not> has_empty_dict c' \<and> c' \<noteq> Node []"
proof (induction c ks v arbitrary: c' rule: set_path.induct)
  case (1 current v)
  then show ?case by simp
next
  case (2 d k v)
  from "2.prems" have c': "c' = Node (dict_set d k (Leaf v))" by simp
  have "\<not> has_empty_dict (Node (dict_set d k (Leaf v)))"
    using "2.prems"(2) set_dict_set [of d k "Leaf v"]
    unfolding has_empty_dict_iff by fastforce
  then show ?case by (simp add: c' dict_set_def)
next
  case (3 s k v)
  then show ?case by simp
next
  case (4 d k k' ks v)
  let ?sub = "case map_of d k of None \<Rightarrow> Node [] | Some c \<Rightarrow> c"
  from "4.prems"(1) obtain c1 where c1: "set_path ?sub (k' # ks) v = Inr c1"
    and c': "c' = Node (dict_set d k c1)"
    by (auto split: sum.splits)
  have sub: "\<not> has_empty_dict ?sub"
  proof (cases "map_of d k")
    case None
    then show ?thesis by simp
  next
    case (Some c)
    then have "(k, c) \<in> set d" by (rule map_of_SomeD)
    with "4.prems"(2) have "\<not> has_empty_dict c" unfolding has_empty_dict_iff by fastforce
    then show ?thesis by (simp add: Some)
  qed
  from "4.IH" [OF c1 sub] have ok: "\<not> has_empty_dict c1" "c1 \<noteq> Node []" by simp_all
  have "\<not> has_empty_dict (Node (dict_set d k c1))"
    using "4.prems"(2) ok set_dict_set [of d k c1]
    unfolding has_empty_dict_iff by fastforce
  then show ?case by (simp add: c' dict_set_def)
next
  case (5 s k k' ks v)
  then show ?case by simp
qed

lemma unflatten_loop_no_empty:
  "unflatten_loop d r = Inr R \<Longrightarrow> \<not> has_empty_dict r \<Longrightarrow> \<not> has_empty_dict R"
proof (induction d arbitrary: r)
  case Nil
  then show ?case by simp
next
  case (Cons x d)
  obtain k v where x: "x = (k, v)" by (cases x)
  from Cons.prems(1) x obtain r' where r': "set_path r (str_split sep k) v = Inr r'"
    and rest: "unflatten_loop d r' = Inr R"
    by (auto split: sum.splits)
  from set_path_no_empty [OF r' Cons.prems(2)] have "\<not> has_empty_dict r'" by simp
  with rest show ?case by (rule Cons.IH)
qed

lemma unflatten_dict_no_empty: "unflatten_dict d = Inr R \<Longrightarrow> \<not> has_empty_dict R"
  unfolding unflatten_dict_def using unflatten_loop_no_empty [of d "Node []" R] by simp


lemma set_path_wf:
  "set_path c ks v = Inr c' \<Longrightarrow> wf_catalog c \<Longrightarrow> wf_catalog c'"
proof (induction c ks v arbitrary: c' rule: set_path.induct)
  case (1 current v)
  then show ?case by simp
next
  case (2 d k v)
  from "2.prems" have c': "c' = Node (dict_set d k (Leaf v))" by simp
  have "distinct (map fst (dict_set d k (Leaf v)))"
    using "2.prems"(2) by (simp add: dict_set_def distinct_update)
  moreover have "\<forall>kv \<in> set (dict_set d k (Leaf v)). wf_catalog (snd kv)"
    using "2.prems"(2) set_dict_set [of d k "Leaf v"] by (fastforce simp: list_all_iff)
  ultimately show ?case by (simp add: c' list_all_iff)
next
  case (3 s k v)
  then show ?case by simp
next
  case (4 d k k' ks v)
  let ?sub = "case map_of d k of None \<Rightarrow> Node [] | Some c \<Rightarrow> c"
  from "4.prems"(1) obtain c1 where c1: "set_path ?sub (k' # ks) v = Inr c1"
    and c': "c' = Node (dict_set d k c1)"
    by (auto split: sum.splits)
  have sub: "wf_catalog ?sub"
  proof (cases "map_of d k")
    case None
    then show ?thesis by simp
  next
    case (Some c)
    then have "(k, c) \<in> set d" by (rule map_of_SomeD)
    with "4.prems"(2) have "wf_catalog c" by (fastforce simp: list_all_iff)
    then show ?thesis by (simp add: Some)
  qed
  from "4.IH" [OF c1 sub] have ok: "wf_catalog c1" .
  have "distinct (map fst (dict_set d k c1))"
    using "4.prems"(2) by (simp add: dict_set_def distinct_update)
  moreover have "\<forall>kv \<in> set (dict_set d k c1). wf_catalog (snd kv)"
    using "4.prems"(2) ok set_dict_set [of d k c1] by (fastforce simp: list_all_iff)
  ultimately show ?case by (simp add: c' list_all_iff)
next
  case (5 s k k' ks v)
  then show ?case by simp
qed

lemma unflatten_loop_wf:
  "unflatten_loop d r = Inr R \<Longrightarrow> wf_catalog r \<Longrightarrow> wf_catalog R"
proof (induction d arbitrary: r)
  case Nil
  then show ?case by simp
next
  case (Cons x d)
  obtain k v where x: "x = (k, v)" by (cases x)
  from Cons.prems(1) x obtain r' where r': "set_path r (str_split sep k) v = Inr r'"
    and rest: "unflatten_loop d r' = Inr R"
    by (auto split: sum.splits)
  from set_path_wf [OF r' Cons.prems(2)] have "wf_catalog r'" .
  with rest show ?case by (rule Cons.IH)
qed

lemma unflatten_dict_wf: "unflatten_dict d = Inr R \<Longrightarrow> wf_catalog R"
  unfolding unflatten_dict_def using unflatten_loop_wf [of d "Node []" R] by simp

lemma py_eq_Node_empty: "py_eq a (Node []) \<Longrightarrow> a = Node []"
  by (cases a) auto

lemma py_eq_has_empty:
  "wf_catalog a \<Longrightarrow> py_eq a b \<Longrightarrow> has_empty_dict b \<Longrightarrow> has_empty_dict a"
proof (induction a arbitrary: b)
  case (Leaf s)
  then show ?case by (cases b) auto
next
  case (Node xs)
  from Node.prems(2,3) obtain ys where b: "b = Node ys" by (cases b) auto
  from Node.prems(2) b have len: "length xs = length ys"
    and each: "\<forall>kv \<in> set xs. \<exists>w. map_of ys (fst kv) = Some w \<and> py_eq (snd kv) w"
    by (auto simp: list_all_iff split: option.splits)
  from Node.prems(1) have dx: "distinct (map fst xs)" by simp
  have sub: "fst ` set xs \<subseteq> fst ` set ys"
  proof
    fix k assume "k \<in> fst ` set xs"
    then obtain kv where "kv \<in> set xs" "k = fst kv" by auto
    with each obtain w where "map_of ys k = Some w" by blast
    then have "(k, w) \<in> set ys" by (rule map_of_SomeD)
    then show "k \<in> fst ` set ys" by force
  qed
  have "card (fst ` set xs) = length xs"
    using dx distinct_card [of "map fst xs"] by simp
  moreover have "card (fst ` set ys) \<le> length ys"
    using card_length [of "map fst ys"] by simp
  moreover have "card (fst ` set xs) \<le> card (fst ` set ys)"
    using sub by (simp add: card_mono)
  ultimately have cy: "card (fst ` set ys) = length ys" and ce: "card (fst ` set xs) = card (fst ` set ys)"
    using len by simp_all
  have keys: "fst ` set xs = fst ` set ys"
    using sub ce by (simp add: card_subset_eq)
  have dy: "distinct (map fst ys)"
    using cy by (simp add: card_distinct)
  from Node.prems(3) b have "\<exists>kv \<in> set ys. snd kv = Node [] \<or> has_empty_dict (snd kv)"
    by (simp only: has_empty_dict_iff)
  then obtain k w where kw: "(k, w) \<in> set ys" and emp: "w = Node [] \<or> has_empty_dict w"
    by auto
  from kw have "k \<in> fst ` set ys" by force
  with keys have "k \<in> fst ` set xs" by simp
  then obtain kv where kv: "kv \<in> set xs" "fst kv = k" by (auto simp: image_iff)
  from dy kw have "map_of ys k = Some w" by (rule map_of_is_SomeI)
  with each kv have eq: "py_eq (snd kv) w" by fastforce
  have wfv: "wf_catalog (snd kv)"
    using Node.prems(1) kv(1) by (simp add: list_all_iff)
  have "snd kv = Node [] \<or> has_empty_dict (snd kv)"
  proof (cases "w = Node []")
    case True
    with eq show ?thesis by (simp add: py_eq_Node_empty)
  next
    case False
    with emp have "has_empty_dict w" by simp
    from Node.IH [of kv "snd kv" w] kv(1) wfv eq this
    have "has_empty_dict (snd kv)" by (cases kv) auto
    then show ?thesis by simp
  qed
  with kv(1) show ?case unfolding has_empty_dict_iff by blast
qed

text \<open>
  C8. \<^verbatim>\<open>flatten_dict\<close> gives the same flat catalog for \<open>C\<close> and for \<open>C\<close> without its
  empty nested dicts (\<open>prune C\<close>): an empty dict contributes no path. So whatever
  \<^verbatim>\<open>unflatten_dict\<close> returns for a flattened catalog contains no empty dict, and when
  \<open>C\<close> contains one the result differs from \<open>C\<close> under \<^verbatim>\<open>==\<close>. When no key contains
  the separator (and the top-level key \<^verbatim>\<open>""\<close>, if present, has a string value), the round
  trip returns exactly \<open>prune C\<close>.
\<close>

theorem flatten_discards_empty:
  "flatten_dict (prune C) parent_key = flatten_dict C parent_key
   \<and> \<not> has_empty_dict (Node (prune C))
   \<and> (\<forall>R. unflatten_dict (flatten_dict C parent_key) = Inr R \<longrightarrow>
          \<not> has_empty_dict R \<and> (has_empty_dict (Node C) \<longrightarrow> \<not> py_eq R (Node C)))
   \<and> (wf_dict C \<and> sep_free (Node C) \<and> top_keys_ok C \<longrightarrow>
          unflatten_dict (flatten_dict C []) = Inr (Node (prune C)))"
proof -
  have same: "flatten_dict (prune C) p = flatten_dict C p" for p
    by (simp add: flatten_dict_def flatten_items_prune)
  have out: "\<not> has_empty_dict R \<and> (has_empty_dict (Node C) \<longrightarrow> \<not> py_eq R (Node C))"
    if "unflatten_dict (flatten_dict C parent_key) = Inr R" for R
  proof -
    from that have ne: "\<not> has_empty_dict R" by (rule unflatten_dict_no_empty)
    from that have "wf_catalog R" by (rule unflatten_dict_wf)
    then have "py_eq R (Node C) \<Longrightarrow> has_empty_dict (Node C) \<Longrightarrow> has_empty_dict R"
      by (rule py_eq_has_empty)
    with ne show ?thesis by blast
  qed
  have trip: "unflatten_dict (flatten_dict C []) = Inr (Node (prune C))"
    if "wf_dict C" and "sep_free (Node C)" and "top_keys_ok C"
  proof -
    have "unflatten_dict (flatten_dict (prune C) []) = Inr (Node (prune C))"
      using prune_wf [OF that(1)] prune_sep_free [OF that(2)] prune_no_empty
        prune_top_keys_ok [OF that(3)]
      by (rule unflatten_flatten_exact)
    then show ?thesis by (simp only: same)
  qed
  from same out trip prune_no_empty show ?thesis by blast
qed

theorem flatten_discards_empty_witness:
  "has_empty_dict (Node [(''a'', Node []), (''b'', Node [(''c'', Leaf ''x''), (''d'', Node [])])])
   \<and> wf_dict [(''a'', Node []), (''b'', Node [(''c'', Leaf ''x''), (''d'', Node [])])]
   \<and> sep_free (Node [(''a'', Node []), (''b'', Node [(''c'', Leaf ''x''), (''d'', Node [])])])
   \<and> top_keys_ok [(''a'', Node []), (''b'', Node [(''c'', Leaf ''x''), (''d'', Node [])])]
   \<and> flatten_dict [(''a'', Node []), (''b'', Node [(''c'', Leaf ''x''), (''d'', Node [])])] []
       = [(''b|c'', ''x'')]
   \<and> unflatten_dict (flatten_dict
        [(''a'', Node []), (''b'', Node [(''c'', Leaf ''x''), (''d'', Node [])])] [])
       = Inr (Node [(''b'', Node [(''c'', Leaf ''x'')])])
   \<and> \<not> py_eq (Node [(''b'', Node [(''c'', Leaf ''x'')])])
         (Node [(''a'', Node []), (''b'', Node [(''c'', Leaf ''x''), (''d'', Node [])])])"
proof -
  let ?C = "[(''a'', Node []), (''b'', Node [(''c'', Leaf ''x''), (''d'', Node [])])]"
  have h0: "has_empty_dict (Node ?C)" by simp
  have h1: "wf_dict ?C" by (simp add: wf_dict_def)
  have h2: "sep_free (Node ?C)" by (simp add: sep_def)
  have h3: "top_keys_ok ?C" by (simp add: top_keys_ok_def)
  have fl: "flatten_dict ?C [] = [(''b|c'', ''x'')]"
    by (simp add: flatten_dict_def dict_of_def dict_update_def dict_set_def new_key_def sep_def)
  have pr: "prune ?C = [(''b'', Node [(''c'', Leaf ''x'')])]" by simp
  from flatten_discards_empty [of ?C "[]"] h1 h2 h3
  have un: "unflatten_dict (flatten_dict ?C []) = Inr (Node (prune ?C))" by blast
  from flatten_discards_empty [of ?C "[]"] un h0
  have "\<not> py_eq (Node (prune ?C)) (Node ?C)" by blast
  with h0 h1 h2 h3 fl un show ?thesis by (simp only: pr simp_thms)
qed

section \<open>Determinism of the serialisation\<close>
























end
